theory Spec2Isabelle
  imports Main "HOL-Library.Word"
begin

section \<open>The LRU response cache (class LRUCache)\<close>

text \<open>
  \<^verbatim>\<open>size_t\<close> is a 64-bit unsigned integer: additions and subtractions wrap around.
  \<^verbatim>\<open>std::string::size()\<close> is the number of bytes of the string, as a \<^verbatim>\<open>size_t\<close>.
\<close>

type_synonym size_t = "64 word"

definition string_size :: "string \<Rightarrow> size_t" where
  "string_size s = of_nat (length s)"

record CacheEntry =
  url :: string
  data :: string

text \<open>
  \<^verbatim>\<open>std::list<CacheEntry>\<close> is a doubly linked list of nodes. An iterator is the address of
  a node; it stays valid while the list is spliced and dies when its node is erased. The
  list is modelled as the sequence of its nodes, front first, each node being its address
  together with the entry it holds. \<^verbatim>\<open>cache_map\<close> maps a key to an iterator.
\<close>

type_synonym iterator = nat

type_synonym node = "iterator \<times> CacheEntry"

record LRUCache =
  capacity_bytes :: size_t
  current_size :: size_t
  lru_list :: "node list"
  cache_map :: "string \<rightharpoonup> iterator"

text \<open>The constructor \<^verbatim>\<open>LRUCache(size_t cap) : capacity_bytes(cap), current_size(0) {}\<close>.\<close>

definition LRUCache_new :: "size_t \<Rightarrow> LRUCache" where
  "LRUCache_new cap =
     \<lparr>capacity_bytes = cap, current_size = 0, lru_list = [], cache_map = Map.empty\<rparr>"

text \<open>\<^verbatim>\<open>it->url.size() + it->data.size()\<close>\<close>

definition entry_bytes :: "CacheEntry \<Rightarrow> size_t" where
  "entry_bytes e = string_size (url e) + string_size (data e)"

text \<open>Dereferencing an iterator: the entry of the node at that address, if the node is in the list.\<close>

definition deref :: "node list \<Rightarrow> iterator \<Rightarrow> CacheEntry option" where
  "deref l it = map_of l it"

text \<open>\<^verbatim>\<open>lru_list.erase(it)\<close>: unlink the node at address \<open>it\<close>.\<close>

definition list_erase :: "node list \<Rightarrow> iterator \<Rightarrow> node list" where
  "list_erase l it = filter (\<lambda>n. fst n \<noteq> it) l"

text \<open>
  \<^verbatim>\<open>lru_list.push_front(...)\<close> allocates a node; its address differs from the address of
  every node in the list.
\<close>

definition new_node :: "node list \<Rightarrow> iterator" where
  "new_node l = Suc (fold max (map fst l) 0)"

text \<open>
  \<^verbatim>\<open>
  string get(string url) {
      auto it = cache_map.find(url);
      if (it == cache_map.end()) return "";
      lru_list.splice(lru_list.begin(), lru_list, it->second);
      return it->second->data;
  }
  \<close>
  The result is the returned string and the cache afterwards. \<open>None\<close> stands for undefined
  behaviour: the iterator stored in the index is not a node of the list.
\<close>

definition get :: "LRUCache \<Rightarrow> string \<Rightarrow> (string \<times> LRUCache) option" where
  "get c u =
     (case cache_map c u of
        None \<Rightarrow> Some ('''', c)
      | Some it \<Rightarrow>
          (case deref (lru_list c) it of
             None \<Rightarrow> None
           | Some e \<Rightarrow> Some (data e, c\<lparr>lru_list := (it, e) # list_erase (lru_list c) it\<rparr>)))"

text \<open>
  The first block of \<^verbatim>\<open>put\<close>:
  \<^verbatim>\<open>
  if (cache_map.find(url) != cache_map.end()) {
      auto it = cache_map[url];
      current_size -= (it->url.size() + it->data.size());
      lru_list.erase(it);
      cache_map.erase(url);
  }
  \<close>
\<close>

definition remove_existing :: "LRUCache \<Rightarrow> string \<Rightarrow> LRUCache option" where
  "remove_existing c u =
     (case cache_map c u of
        None \<Rightarrow> Some c
      | Some it \<Rightarrow>
          (case deref (lru_list c) it of
             None \<Rightarrow> None
           | Some e \<Rightarrow>
               Some (c\<lparr>current_size := current_size c - entry_bytes e,
                       lru_list := list_erase (lru_list c) it,
                       cache_map := (cache_map c)(u := None)\<rparr>)))"

text \<open>
  The eviction loop of \<^verbatim>\<open>put\<close>:
  \<^verbatim>\<open>
  while (current_size + entry_size > capacity_bytes && !lru_list.empty()) {
      auto last = lru_list.back();
      current_size -= (last.url.size() + last.data.size());
      cache_map.erase(last.url);
      lru_list.pop_back();
  }
  \<close>
\<close>

definition evict_one :: "LRUCache \<Rightarrow> LRUCache" where
  "evict_one c =
     (let last_entry = snd (last (lru_list c))
      in c\<lparr>current_size := current_size c - entry_bytes last_entry,
           cache_map := (cache_map c)(url last_entry := None),
           lru_list := butlast (lru_list c)\<rparr>)"

function evict :: "LRUCache \<Rightarrow> size_t \<Rightarrow> LRUCache" where
  "evict c entry_size =
     (if current_size c + entry_size > capacity_bytes c \<and> lru_list c \<noteq> []
      then evict (evict_one c) entry_size
      else c)"
  by pat_completeness auto
termination
  by (relation "measure (\<lambda>(c, s). length (lru_list c))") (auto simp: evict_one_def Let_def)

declare evict.simps [simp del]

text \<open>
  \<^verbatim>\<open>
  void put(string url, const string& data) {
      size_t entry_size = url.size() + data.size();
      if (entry_size > capacity_bytes) return;
      ... remove the existing entry ...
      ... evict ...
      lru_list.push_front({url, data});
      cache_map[url] = lru_list.begin();
      current_size += entry_size;
  }
  \<close>
\<close>

definition put :: "LRUCache \<Rightarrow> string \<Rightarrow> string \<Rightarrow> LRUCache option" where
  "put c u d =
     (let entry_size = string_size u + string_size d
      in if entry_size > capacity_bytes c then Some c
         else (case remove_existing c u of
                 None \<Rightarrow> None
               | Some c1 \<Rightarrow>
                   (let c2 = evict c1 entry_size;
                        it = new_node (lru_list c2)
                    in Some (c2\<lparr>lru_list := (it, \<lparr>url = u, data = d\<rparr>) # lru_list c2,
                                cache_map := (cache_map c2)(u \<mapsto> it),
                                current_size := current_size c2 + entry_size\<rparr>))))"

text \<open>A sequence of operations on the cache, run in order; the results of the gets are dropped.\<close>

datatype cache_op = Get string | Put string string

definition apply_op :: "LRUCache \<Rightarrow> cache_op \<Rightarrow> LRUCache option" where
  "apply_op c op =
     (case op of
        Get u \<Rightarrow> map_option snd (get c u)
      | Put u d \<Rightarrow> put c u d)"

fun run_ops :: "LRUCache \<Rightarrow> cache_op list \<Rightarrow> LRUCache option" where
  "run_ops c [] = Some c"
| "run_ops c (op # ops) =
     (case apply_op c op of None \<Rightarrow> None | Some c' \<Rightarrow> run_ops c' ops)"

section \<open>The representation invariant of the cache\<close>

text \<open>
  Node addresses are distinct, every key has one node, the index holds exactly the keys of
  the list and maps each key to its node, and \<open>current_size\<close> is the sum of the sizes of
  the entries (in \<^verbatim>\<open>size_t\<close> arithmetic). The fields of the class are private, so a cache
  is only ever in a state that the constructor, \<open>get\<close> and \<open>put\<close> have produced; these
  states satisfy the invariant (lemmas \<open>new_inv\<close>, \<open>get_inv\<close>, \<open>put_inv\<close> and
  \<open>run_ops_inv\<close> below), and in them \<open>get\<close> and \<open>put\<close> never meet a dangling iterator.
\<close>

definition cache_wf :: "LRUCache \<Rightarrow> bool" where
  "cache_wf c \<longleftrightarrow>
     distinct (map fst (lru_list c)) \<and>
     distinct (map (url \<circ> snd) (lru_list c)) \<and>
     dom (cache_map c) = set (map (url \<circ> snd) (lru_list c)) \<and>
     list_all (\<lambda>n. cache_map c (url (snd n)) = Some (fst n)) (lru_list c) \<and>
     current_size c = sum_list (map (entry_bytes \<circ> snd) (lru_list c))"

definition cache_inv :: "LRUCache \<Rightarrow> bool" where
  "cache_inv c \<longleftrightarrow> cache_wf c \<and> current_size c \<le> capacity_bytes c"


section \<open>Sockets and strings\<close>

text \<open>
  The input side of a socket is the list of the outcomes of the successive \<^verbatim>\<open>recv\<close>
  calls on it: \<open>Bytes s\<close> when the call returned \<open>length s\<close> bytes (0 bytes: the peer has
  closed), \<open>RecvError\<close> when it returned \<^verbatim>\<open>-1\<close>. When the list is used up the peer has
  closed and \<^verbatim>\<open>recv\<close> returns 0. Every call is made with a buffer of \<^verbatim>\<open>MAX_BYTES\<close> = 4096
  bytes, so a \<^verbatim>\<open>recv\<close> returns at most that many; nothing below depends on this bound.
\<close>

datatype recv_result = Bytes string | RecvError

text \<open>\<^verbatim>\<open>const size_t MAX_HEADER_SIZE = 64 * 1024;\<close>\<close>

definition MAX_HEADER_SIZE :: nat where
  "MAX_HEADER_SIZE = 64 * 1024"

definition CRLF :: string where
  "CRLF = [CHR 0x0D, CHR 0x0A]"

text \<open>
  \<^verbatim>\<open>std::string::find\<close>: the position of the first occurrence of \<open>pat\<close> in \<open>s\<close>, \<open>None\<close> for
  \<^verbatim>\<open>npos\<close>.
\<close>

primrec string_find :: "string \<Rightarrow> string \<Rightarrow> nat option" where
  "string_find [] pat = (if pat = [] then Some 0 else None)"
| "string_find (c # s) pat =
     (if take (length pat) (c # s) = pat then Some 0 else map_option Suc (string_find s pat))"

text \<open>
  What the worker writes to the client socket: a call \<^verbatim>\<open>send_all(socket, bytes)\<close> or a call
  \<^verbatim>\<open>sendErrorMessage(socket, status_code)\<close>.
\<close>

datatype client_out = Sent string | ErrorMessage nat

section \<open>The request handler (handle\_request)\<close>

text \<open>
  Modelled from the spec: the struct \<^verbatim>\<open>ParsedRequest\<close> of \<^verbatim>\<open>proxy_parse.h\<close>, which is not
  among the sources. It has the fields \<open>method\<close>, \<open>path\<close>, \<open>version\<close>, \<open>host\<close>, an
  optional \<open>port\<close> (a null pointer when absent) and the ordered list of the
  \<^verbatim>\<open>headersused\<close> header (key, value) pairs. The fields \<^verbatim>\<open>method\<close> and \<^verbatim>\<open>value\<close> are named \<open>method'\<close> and \<open>value'\<close>.
\<close>

record ParsedHeader =
  key :: string
  value' :: string

record ParsedRequest =
  method' :: string
  path :: string
  version :: string
  host :: string
  port :: "string option"
  headers :: "ParsedHeader list"

text \<open>\<^verbatim>\<open>::tolower\<close> in the C locale: the letters \<open>A\<close> to \<open>Z\<close> go to \<open>a\<close> to \<open>z\<close>.\<close>

definition tolower :: "char \<Rightarrow> char" where
  "tolower c =
     (if 65 \<le> (of_char c :: nat) \<and> (of_char c :: nat) \<le> 90
      then char_of ((of_char c :: nat) + 32) else c)"

text \<open>
  The loop over the headers:
  \<^verbatim>\<open>
  for (size_t i = 0; i < request->headersused; i++) {
      string key(request->headers[i].key);
      string value(request->headers[i].value);
      string key_lower = key;
      transform(key_lower.begin(), key_lower.end(), key_lower.begin(), ::tolower);
      if (key_lower == "host" || key_lower == "connection") continue;
      req_str += key + ": " + value + "\r\n";
  }
  \<close>
\<close>

fun forward_headers :: "ParsedHeader list \<Rightarrow> string \<Rightarrow> string" where
  "forward_headers [] req_str = req_str"
| "forward_headers (h # hs) req_str =
     (let key_lower = map tolower (key h)
      in if key_lower = ''host'' \<or> key_lower = ''connection''
         then forward_headers hs req_str
         else forward_headers hs (req_str @ key h @ '': '' @ value' h @ CRLF))"

text \<open>
  \<^verbatim>\<open>
  string req_str = string(request->method) + " " + string(request->path) + " "
                 + string(request->version) + "\r\n";
  ... the loop over the headers ...
  req_str += "Host: " + string(request->host) + "\r\n";
  req_str += "Connection: close\r\n\r\n";
  \<close>
\<close>

definition build_request :: "ParsedRequest \<Rightarrow> string" where
  "build_request request =
     (let req_str = method' request @ '' '' @ path request @ '' '' @ version request @ CRLF;
          req_str = forward_headers (headers request) req_str;
          req_str = req_str @ ''Host: '' @ host request @ CRLF;
          req_str = req_str @ ''Connection: close'' @ CRLF @ CRLF
      in req_str)"

text \<open>
  The relay loop:
  \<^verbatim>\<open>
  while ((bytes_received = recv(remoteSocketID, buffer.data(), MAX_BYTES, 0)) > 0) {
      if (send_all(clientSocket, buffer.data(), (size_t)bytes_received) < 0) break;
      temp_cache_data.append(buffer.data(), bytes_received);
  }
  \<close>
  \<open>send_ok i\<close> tells whether the \<open>i\<close>-th \<^verbatim>\<open>send_all\<close> on the client socket succeeds. The
  result is \<^verbatim>\<open>temp_cache_data\<close> and the chunks passed to \<^verbatim>\<open>send_all\<close>.
\<close>

fun relay_loop ::
  "recv_result list \<Rightarrow> (nat \<Rightarrow> bool) \<Rightarrow> nat \<Rightarrow> string \<Rightarrow> client_out list
     \<Rightarrow> string \<times> client_out list" where
  "relay_loop [] send_ok i temp_cache_data sent = (temp_cache_data, sent)"
| "relay_loop (RecvError # sock) send_ok i temp_cache_data sent = (temp_cache_data, sent)"
| "relay_loop (Bytes buffer # sock) send_ok i temp_cache_data sent =
     (if length buffer = 0 then (temp_cache_data, sent)
      else if \<not> send_ok i then (temp_cache_data, sent @ [Sent buffer])
      else relay_loop sock send_ok (Suc i) (temp_cache_data @ buffer) (sent @ [Sent buffer]))"

text \<open>
  The remote server, as \<^verbatim>\<open>handle_request\<close> meets it: whether
  \<^verbatim>\<open>connectRemoteServer(request->host, server_port)\<close> returns a socket, whether the
  \<^verbatim>\<open>send_all\<close> of the request on that socket succeeds, and the outcomes of the \<^verbatim>\<open>recv\<close>
  calls on it.
\<close>

record remote_server =
  connect_ok :: bool
  request_sent :: bool
  responses :: "recv_result list"

text \<open>
  The outcome of \<^verbatim>\<open>handle_request\<close>: its return value, the calls on the client socket, the
  request passed to \<^verbatim>\<open>send_all\<close> on the remote socket (if it got that far) and the cache.
\<close>

record handle_result =
  ret :: int
  to_client :: "client_out list"
  to_remote :: "string option"
  cache :: LRUCache

text \<open>
  The parameter \<^verbatim>\<open>url\<close> is named \<open>u\<close>, as in \<open>get\<close> and \<open>put\<close>.
  \<^verbatim>\<open>
  int handle_request(int clientSocket, ParsedRequest *request, string url) {
      ... build req_str ...
      int remoteSocketID = connectRemoteServer(request->host, server_port);
      if (remoteSocketID < 0) return -1;
      if (send_all(remoteSocketID, req_str.c_str(), req_str.size()) < 0) {
          close(remoteSocketID);
          return -1;
      }
      ... the relay loop ...
      cache.put(url, temp_cache_data);
      shutdown(remoteSocketID, SHUT_RDWR);
      close(remoteSocketID);
      return 0;
  }
  \<close>
\<close>

definition handle_request ::
  "LRUCache \<Rightarrow> remote_server \<Rightarrow> (nat \<Rightarrow> bool) \<Rightarrow> ParsedRequest \<Rightarrow> string
     \<Rightarrow> handle_result option" where
  "handle_request c server send_ok request u =
     (let req_str = build_request request
      in if \<not> connect_ok server
         then Some \<lparr>ret = - 1, to_client = [], to_remote = None, cache = c\<rparr>
         else if \<not> request_sent server
         then Some \<lparr>ret = - 1, to_client = [], to_remote = Some req_str, cache = c\<rparr>
         else (let (temp_cache_data, sent) = relay_loop (responses server) send_ok 0 [] []
               in (case put c u temp_cache_data of
                     None \<Rightarrow> None
                   | Some c' \<Rightarrow>
                       Some \<lparr>ret = 0, to_client = sent, to_remote = Some req_str, cache = c'\<rparr>)))"

section \<open>The worker (thread\_fn)\<close>

text \<open>
  The header loop:
  \<^verbatim>\<open>
  while(total_bytes < MAX_HEADER_SIZE) {
      ssize_t recved = recv(socket, buffer.data(), MAX_BYTES, 0);
      if (recved <= 0) break;
      raw_req.append(buffer.data(), recved);
      total_bytes += recved;
      if (raw_req.find("\r\n\r\n") != string::npos) {
          header_complete = true;
          break;
      }
  }
  \<close>
  The result is \<^verbatim>\<open>raw_req\<close>, \<^verbatim>\<open>total_bytes\<close> and \<^verbatim>\<open>header_complete\<close> after the loop. The counter
  \<^verbatim>\<open>total_bytes\<close> cannot overflow: it grows by at most \<^verbatim>\<open>MAX_BYTES\<close> a round and the loop
  ends once it has reached \<^verbatim>\<open>MAX_HEADER_SIZE\<close>.
\<close>

fun recv_headers :: "recv_result list \<Rightarrow> string \<Rightarrow> nat \<Rightarrow> string \<times> nat \<times> bool" where
  "recv_headers [] raw_req total_bytes = (raw_req, total_bytes, False)"
| "recv_headers (r # sock) raw_req total_bytes =
     (if total_bytes < MAX_HEADER_SIZE
      then (case r of
              RecvError \<Rightarrow> (raw_req, total_bytes, False)
            | Bytes buffer \<Rightarrow>
                if length buffer = 0 then (raw_req, total_bytes, False)
                else (let raw_req' = raw_req @ buffer;
                          total_bytes' = total_bytes + length buffer
                      in if string_find raw_req' (CRLF @ CRLF) \<noteq> None
                         then (raw_req', total_bytes', True)
                         else recv_headers sock raw_req' total_bytes'))
      else (raw_req, total_bytes, False))"

text \<open>
  What one worker meets: the client's socket (the outcomes of \<^verbatim>\<open>recv\<close> and of \<^verbatim>\<open>send_all\<close>),
  the parser \<^verbatim>\<open>ParsedRequest_parse\<close> of \<^verbatim>\<open>proxy_parse.h\<close> (\<open>None\<close> when it returns a negative
  value) and the remote server.
\<close>

record worker_env =
  client_recv :: "recv_result list"
  client_send_ok :: "nat \<Rightarrow> bool"
  parse :: "string \<Rightarrow> ParsedRequest option"
  remote :: remote_server

text \<open>
  What one worker does: its calls on the client socket, the request it sent to the
  remote server (if any) and the cache when it returns.
\<close>

record worker_result =
  client_outs :: "client_out list"
  remote_request :: "string option"
  cache_after :: LRUCache

text \<open>
  The branch of \<^verbatim>\<open>thread_fn\<close> for a complete header:
  \<^verbatim>\<open>
  string cached_resp = cache.get(raw_req);
  if (!cached_resp.empty()) {
      send_all(socket, cached_resp.c_str(), cached_resp.size());
  } else {
      ParsedRequest* request = ParsedRequest_create();
      if (ParsedRequest_parse(request, raw_req.c_str(), raw_req.size()) < 0) {
          sendErrorMessage(socket, 400);
      } else {
          if (string(request->method) == "GET") {
               if (handle_request(socket, request, raw_req) == -1) {
                   sendErrorMessage(socket, 500);
               }
          } else {
              sendErrorMessage(socket, 501);
          }
      }
  }
  \<close>
\<close>

definition lookup_and_dispatch :: "LRUCache \<Rightarrow> worker_env \<Rightarrow> string \<Rightarrow> worker_result option" where
  "lookup_and_dispatch c env raw_req =
     (case get c raw_req of
        None \<Rightarrow> None
      | Some (cached_resp, c1) \<Rightarrow>
          if cached_resp \<noteq> []
          then Some \<lparr>client_outs = [Sent cached_resp], remote_request = None, cache_after = c1\<rparr>
          else (case parse env raw_req of
                  None \<Rightarrow>
                    Some \<lparr>client_outs = [ErrorMessage 400], remote_request = None,
                          cache_after = c1\<rparr>
                | Some request \<Rightarrow>
                    if method' request = ''GET''
                    then (case handle_request c1 (remote env) (client_send_ok env) request raw_req of
                            None \<Rightarrow> None
                          | Some r \<Rightarrow>
                              Some \<lparr>client_outs =
                                      (if ret r = - 1 then to_client r @ [ErrorMessage 500]
                                       else to_client r),
                                    remote_request = to_remote r, cache_after = cache r\<rparr>)
                    else Some \<lparr>client_outs = [ErrorMessage 501], remote_request = None,
                               cache_after = c1\<rparr>))"

text \<open>
  \<^verbatim>\<open>
  void* thread_fn(void* socketNew) {
      ... the header loop ...
      if (header_complete) {
          ... look up and dispatch ...
      } else {
          if (total_bytes > 0) sendErrorMessage(socket, 400);
      }
      shutdown(socket, SHUT_RDWR);
      close(socket);
      return NULL;
  }
  \<close>
\<close>

definition thread_fn :: "LRUCache \<Rightarrow> worker_env \<Rightarrow> worker_result option" where
  "thread_fn c env =
     (let (raw_req, total_bytes, header_complete) = recv_headers (client_recv env) [] 0
      in if header_complete then lookup_and_dispatch c env raw_req
         else if total_bytes > 0
         then Some \<lparr>client_outs = [ErrorMessage 400], remote_request = None, cache_after = c\<rparr>
         else Some \<lparr>client_outs = [], remote_request = None, cache_after = c\<rparr>)"

section \<open>The outbound request in the words of the specification\<close>

text \<open>
  Two characters are the same letter when they are equal or are the upper-case and the
  lower-case form of one ASCII letter; two strings are equal case-insensitively when they
  are so character by character.
\<close>

definition same_letter :: "char \<Rightarrow> char \<Rightarrow> bool" where
  "same_letter c d \<longleftrightarrow>
     c = d \<or>
     (65 \<le> (of_char c :: nat) \<and> (of_char c :: nat) \<le> 90 \<and> (of_char d :: nat) = of_char c + 32) \<or>
     (65 \<le> (of_char d :: nat) \<and> (of_char d :: nat) \<le> 90 \<and> (of_char c :: nat) = of_char d + 32)"

definition ci_equal :: "string \<Rightarrow> string \<Rightarrow> bool" where
  "ci_equal a b = list_all2 same_letter a b"

text \<open>A header is dropped when its key is \<open>Host\<close> or \<open>Connection\<close>, case-insensitively.\<close>

definition dropped_header :: "ParsedHeader \<Rightarrow> bool" where
  "dropped_header h \<longleftrightarrow> ci_equal (key h) ''Host'' \<or> ci_equal (key h) ''Connection''"

definition header_line :: "ParsedHeader \<Rightarrow> string" where
  "header_line h = key h @ '': '' @ value' h @ CRLF"

text \<open>
  The request line \<open>METHOD SP PATH SP VERSION CRLF\<close>, the client's headers in order
  without the dropped ones, \<open>Host: <parsed-host>\<close>, \<open>Connection: close\<close> and the blank line.
\<close>

definition outbound_request_spec :: "ParsedRequest \<Rightarrow> string" where
  "outbound_request_spec request =
     method' request @ '' '' @ path request @ '' '' @ version request @ CRLF
     @ concat (map header_line (filter (\<lambda>h. \<not> dropped_header h) (headers request)))
     @ ''Host: '' @ host request @ CRLF
     @ ''Connection: close'' @ CRLF
     @ CRLF"

section \<open>Observations\<close>

text \<open>The value stored in the cache under a key, \<open>None\<close> when the key is not in the index.\<close>

definition cached_value :: "LRUCache \<Rightarrow> string \<Rightarrow> string option" where
  "cached_value c k =
     (case cache_map c k of
        None \<Rightarrow> None
      | Some it \<Rightarrow> map_option data (deref (lru_list c) it))"

text \<open>The bytes that one \<^verbatim>\<open>recv\<close> delivered.\<close>

definition chunk_bytes :: "recv_result \<Rightarrow> string" where
  "chunk_bytes r = (case r of Bytes s \<Rightarrow> s | RecvError \<Rightarrow> [])"

text \<open>
  The request's byte sequence up to and including the first blank-line terminator
  \<open>CRLF CRLF\<close> (the whole sequence when there is none).
\<close>

definition header_prefix :: "string \<Rightarrow> string" where
  "header_prefix s =
     (case string_find s (CRLF @ CRLF) of
        None \<Rightarrow> s
      | Some n \<Rightarrow> take (n + length (CRLF @ CRLF)) s)"

section \<open>Example states\<close>

text \<open>
  A cache of capacity 10 holding two entries, \<open>B\<close> (3 bytes, most recent) and \<open>A\<close>
  (6 bytes), as two calls of \<open>put\<close> leave it.
\<close>

definition example_cache :: LRUCache where
  "example_cache =
     \<lparr>capacity_bytes = 10, current_size = 9,
      lru_list = [(2, \<lparr>url = ''B'', data = ''bb''\<rparr>), (1, \<lparr>url = ''A'', data = ''aaaaa''\<rparr>)],
      cache_map = [''B'' \<mapsto> 2, ''A'' \<mapsto> 1]\<rparr>"

text \<open>
  A parsed request with three headers, two of which are dropped: what a parser makes of
  the request \<open>example_raw\<close> below.
\<close>

definition example_request :: ParsedRequest where
  "example_request =
     \<lparr>method' = ''GET'', path = ''/a'', version = ''HTTP/1.0'', host = ''h.test'', port = None,
      headers = [\<lparr>key = ''HOST'', value' = ''x''\<rparr>, \<lparr>key = ''Accept'', value' = ''*''\<rparr>,
                 \<lparr>key = ''connection'', value' = ''keep-alive''\<rparr>]\<rparr>"

text \<open>A client socket on which every \<^verbatim>\<open>send_all\<close> succeeds.\<close>

definition always_ok :: "nat \<Rightarrow> bool" where
  "always_ok i = True"

text \<open>
  A remote server that delivers the two bytes \<open>ab\<close> and then fails: the second \<^verbatim>\<open>recv\<close>
  returns \<^verbatim>\<open>-1\<close>. And one that closes before sending anything.
\<close>

definition example_server_error :: remote_server where
  "example_server_error =
     \<lparr>connect_ok = True, request_sent = True, responses = [Bytes ''ab'', RecvError]\<rparr>"

definition example_server_eof :: remote_server where
  "example_server_eof = \<lparr>connect_ok = True, request_sent = True, responses = []\<rparr>"

text \<open>A parser that returns the parsed request above.\<close>

definition example_parse :: "string \<Rightarrow> ParsedRequest option" where
  "example_parse s = Some example_request"

text \<open>
  A client request of one chunk: the request line, three headers, the blank line and two
  more bytes. The
  worker's environment with a given client input, the parser above and a remote server that
  answers \<open>ok\<close> and closes.
\<close>

definition example_raw :: string where
  "example_raw =
     ''GET http://h.test/a HTTP/1.0'' @ CRLF @ ''HOST: x'' @ CRLF @ ''Accept: *'' @ CRLF
     @ ''connection: keep-alive'' @ CRLF @ CRLF @ ''XY''"

definition example_env :: "recv_result list \<Rightarrow> worker_env" where
  "example_env evs =
     \<lparr>client_recv = evs, client_send_ok = always_ok, parse = example_parse,
      remote = \<lparr>connect_ok = True, request_sent = True, responses = [Bytes ''ok'']\<rparr>\<rparr>"

text \<open>Caches that hold the request above as key, with the value \<open>ok\<close> and with the empty value.\<close>

definition example_cache_hit :: LRUCache where
  "example_cache_hit =
     \<lparr>capacity_bytes = 100, current_size = 80,
      lru_list = [(1, \<lparr>url = example_raw, data = ''ok''\<rparr>)],
      cache_map = [example_raw \<mapsto> 1]\<rparr>"

definition example_cache_empty_value :: LRUCache where
  "example_cache_empty_value =
     \<lparr>capacity_bytes = 100, current_size = 78,
      lru_list = [(1, \<lparr>url = example_raw, data = []\<rparr>)],
      cache_map = [example_raw \<mapsto> 1]\<rparr>"

text \<open>A full receive buffer without a terminator, and a last chunk that ends in the terminator.\<close>

definition block_a :: string where
  "block_a = replicate 4096 (CHR ''a'')"

definition last_block :: string where
  "last_block = replicate 4092 (CHR ''a'') @ CRLF @ CRLF"

section \<open>Properties of the cache operations\<close>

lemma fold_max_ge: "(a::nat) \<le> fold max xs a"
  by (induction xs arbitrary: a) (auto intro: order_trans [OF max.cobounded2])

lemma fold_max_mem: "x \<in> set xs \<Longrightarrow> (x::nat) \<le> fold max xs a"
  by (induction xs arbitrary: a) (auto intro: order_trans [OF max.cobounded1 fold_max_ge])

lemma new_node_fresh: "new_node l \<notin> fst ` set l"
proof
  assume "new_node l \<in> fst ` set l"
  then have "new_node l \<in> set (map fst l)" by simp
  then have "new_node l \<le> fold max (map fst l) 0" by (rule fold_max_mem)
  then show False by (simp add: new_node_def)
qed

lemma deref_iff: "distinct (map fst l) \<Longrightarrow> deref l it = Some e \<longleftrightarrow> (it, e) \<in> set l"
  by (simp add: deref_def)

lemma wf_lookup:
  assumes "cache_wf c" and "cache_map c u = Some it"
  shows "\<exists>e. deref (lru_list c) it = Some e \<and> url e = u \<and> (it, e) \<in> set (lru_list c)"
proof -
  from assms have "u \<in> set (map (url \<circ> snd) (lru_list c))"
    unfolding cache_wf_def by (metis domI)
  then obtain n where n: "n \<in> set (lru_list c)" "url (snd n) = u" by auto
  with assms have "fst n = it" unfolding cache_wf_def list_all_iff by auto
  with n have "(it, snd n) \<in> set (lru_list c)" by (metis prod.collapse)
  with assms n show ?thesis unfolding cache_wf_def by (auto simp: deref_iff)
qed

lemma sum_list_erase:
  fixes f :: "node \<Rightarrow> size_t"
  assumes "distinct (map fst l)" and "(it, e) \<in> set l"
  shows "sum_list (map f (list_erase l it)) = sum_list (map f l) - f (it, e)"
  using assms
proof (induction l)
  case Nil
  then show ?case by simp
next
  case (Cons n l)
  show ?case
  proof (cases "fst n = it")
    case True
    with Cons.prems have "n = (it, e)" by (cases n) (auto simp: image_iff)
    moreover from True Cons.prems have "list_erase l it = l"
      by (auto simp: list_erase_def filter_id_conv image_iff)
    ultimately show ?thesis by (simp add: list_erase_def)
  next
    case False
    with Cons show ?thesis by (auto simp: list_erase_def)
  qed
qed

lemma sum_list_butlast:
  fixes f :: "node \<Rightarrow> size_t"
  shows "l \<noteq> [] \<Longrightarrow> sum_list (map f (butlast l)) = sum_list (map f l) - f (last l)"
  by (induction l) auto

lemma set_erase:
  assumes "distinct (map fst l)" and "(it, e) \<in> set l"
  shows "set (list_erase l it) = set l - {(it, e)}"
  using assms by (auto simp: list_erase_def dest: eq_key_imp_eq_value)

lemma distinct_erase_fst: "distinct (map fst l) \<Longrightarrow> distinct (map fst (list_erase l it))"
  by (simp add: list_erase_def distinct_map_filter)

lemma distinct_erase_url:
  "distinct (map (url \<circ> snd) l) \<Longrightarrow> distinct (map (url \<circ> snd) (list_erase l it))"
  by (simp add: list_erase_def distinct_map_filter)

lemma url_unique:
  assumes "distinct (map (url \<circ> snd) l)" and "n \<in> set l" and "m \<in> set l"
    and "url (snd n) = url (snd m)"
  shows "n = m"
proof -
  from assms(1) have "inj_on (url \<circ> snd) (set l)" by (simp add: distinct_map)
  from inj_onD [OF this _ assms(2,3)] assms(4) show ?thesis by simp
qed

lemma get_wf:
  assumes wf: "cache_wf c"
  shows "\<exists>v c'. get c u = Some (v, c') \<and> cache_wf c' \<and> capacity_bytes c' = capacity_bytes c
           \<and> current_size c' = current_size c \<and> cache_map c' = cache_map c
           \<and> set (lru_list c') = set (lru_list c)"
proof (cases "cache_map c u")
  case None
  with wf show ?thesis by (simp add: get_def)
next
  case (Some it)
  from wf_lookup [OF wf Some] obtain e where
    e: "deref (lru_list c) it = Some e" "url e = u" "(it, e) \<in> set (lru_list c)" by blast
  let ?l = "lru_list c"
  let ?c' = "c\<lparr>lru_list := (it, e) # list_erase ?l it\<rparr>"
  from wf have d1: "distinct (map fst ?l)" and d2: "distinct (map (url \<circ> snd) ?l)"
    by (simp_all add: cache_wf_def)
  have g: "get c u = Some (data e, ?c')" using Some e by (simp add: get_def)
  have s: "set (list_erase ?l it) = set ?l - {(it, e)}" by (rule set_erase [OF d1 e(3)])
  have s': "set (lru_list ?c') = set ?l" using s e(3) by auto
  have a1: "distinct (map fst (lru_list ?c'))"
    using distinct_erase_fst [OF d1, of it] by (auto simp: list_erase_def)
  have a2: "distinct (map (url \<circ> snd) (lru_list ?c'))"
  proof -
    have "url e \<notin> (url \<circ> snd) ` set (list_erase ?l it)"
    proof
      assume "url e \<in> (url \<circ> snd) ` set (list_erase ?l it)"
      then obtain n where "n \<in> set (list_erase ?l it)" "url (snd n) = url e"
        by (auto simp: image_iff)
      with s have n: "n \<in> set ?l" "n \<noteq> (it, e)" "url (snd n) = url e" by simp_all
      with url_unique [OF d2 n(1) e(3)] show False by simp
    qed
    then show ?thesis using d2 by (simp add: distinct_erase_url)
  qed
  have a3: "dom (cache_map ?c') = set (map (url \<circ> snd) (lru_list ?c'))"
    using wf s' by (simp only: set_map) (simp add: cache_wf_def)
  have a4: "list_all (\<lambda>n. cache_map ?c' (url (snd n)) = Some (fst n)) (lru_list ?c')"
    using wf s' unfolding list_all_iff cache_wf_def by simp
  have a5: "current_size ?c' = sum_list (map (entry_bytes \<circ> snd) (lru_list ?c'))"
    using wf sum_list_erase [OF d1 e(3), of "entry_bytes \<circ> snd"] by (simp add: cache_wf_def)
  have "cache_wf ?c'" unfolding cache_wf_def using a1 a2 a3 a4 a5 by blast
  with g s' show ?thesis by simp
qed

lemma urls_erase:
  assumes "distinct (map fst l)" and "distinct (map (url \<circ> snd) l)" and "(it, e) \<in> set l"
  shows "(url \<circ> snd) ` set (list_erase l it) = (url \<circ> snd) ` set l - {url e}"
proof -
  have s: "set (list_erase l it) = set l - {(it, e)}" by (rule set_erase [OF assms(1,3)])
  have "\<And>n. n \<in> set l \<Longrightarrow> n \<noteq> (it, e) \<Longrightarrow> url (snd n) \<noteq> url e"
    using url_unique [OF assms(2) _ assms(3)] by auto
  with s show ?thesis by (auto simp: image_iff) 
qed

lemma erase_eq_filter_url:
  assumes "distinct (map fst l)" and "distinct (map (url \<circ> snd) l)" and "(it, e) \<in> set l"
  shows "list_erase l it = filter (\<lambda>n. url (snd n) \<noteq> url e) l"
  unfolding list_erase_def
proof (rule filter_cong [OF refl])
  fix n assume n: "n \<in> set l"
  show "(fst n \<noteq> it) = (url (snd n) \<noteq> url e)"
  proof
    assume "fst n \<noteq> it"
    then have "n \<noteq> (it, e)" by auto
    with url_unique [OF assms(2) n assms(3)] show "url (snd n) \<noteq> url e" by auto
  next
    assume "url (snd n) \<noteq> url e"
    then have "n \<noteq> (it, e)" by auto
    with n assms(1,3) show "fst n \<noteq> it"
      by (metis eq_key_imp_eq_value prod.collapse)
  qed
qed

lemma remove_existing_wf:
  assumes wf: "cache_wf c"
  shows "\<exists>c1. remove_existing c u = Some c1 \<and> cache_wf c1
           \<and> capacity_bytes c1 = capacity_bytes c \<and> cache_map c1 u = None
           \<and> lru_list c1 = filter (\<lambda>n. url (snd n) \<noteq> u) (lru_list c)"
proof (cases "cache_map c u")
  case None
  from wf None have "u \<notin> set (map (url \<circ> snd) (lru_list c))"
    unfolding cache_wf_def by (metis domIff)
  then have "filter (\<lambda>n. url (snd n) \<noteq> u) (lru_list c) = lru_list c"
    by (auto simp: filter_id_conv)
  with wf None show ?thesis by (simp add: remove_existing_def)
next
  case (Some it)
  from wf_lookup [OF wf Some] obtain e where
    e: "deref (lru_list c) it = Some e" "url e = u" "(it, e) \<in> set (lru_list c)" by blast
  let ?l = "lru_list c"
  let ?c1 = "c\<lparr>current_size := current_size c - entry_bytes e,
                lru_list := list_erase ?l it, cache_map := (cache_map c)(u := None)\<rparr>"
  from wf have d1: "distinct (map fst ?l)" and d2: "distinct (map (url \<circ> snd) ?l)"
    by (simp_all add: cache_wf_def)
  have r: "remove_existing c u = Some ?c1" using Some e by (simp add: remove_existing_def)
  have us: "(url \<circ> snd) ` set (list_erase ?l it) = (url \<circ> snd) ` set ?l - {u}"
    using urls_erase [OF d1 d2 e(3)] e(2) by simp
  have a1: "distinct (map fst (lru_list ?c1))" using distinct_erase_fst [OF d1] by simp
  have a2: "distinct (map (url \<circ> snd) (lru_list ?c1))" using distinct_erase_url [OF d2] by simp
  have a3: "dom (cache_map ?c1) = set (map (url \<circ> snd) (lru_list ?c1))"
    using wf us by (simp only: set_map) (auto simp: cache_wf_def)
  have a4: "list_all (\<lambda>n. cache_map ?c1 (url (snd n)) = Some (fst n)) (lru_list ?c1)"
  proof -
    have "\<And>n. n \<in> set (list_erase ?l it) \<Longrightarrow> url (snd n) \<noteq> u \<and> n \<in> set ?l"
      using us by (auto simp: list_erase_def)
    with wf show ?thesis unfolding list_all_iff cache_wf_def by simp
  qed
  have a5: "current_size ?c1 = sum_list (map (entry_bytes \<circ> snd) (lru_list ?c1))"
    using wf sum_list_erase [OF d1 e(3), of "entry_bytes \<circ> snd"] by (simp add: cache_wf_def)
  have "cache_wf ?c1" unfolding cache_wf_def using a1 a2 a3 a4 a5 by blast
  moreover have "lru_list ?c1 = filter (\<lambda>n. url (snd n) \<noteq> u) ?l"
    using erase_eq_filter_url [OF d1 d2 e(3)] e(2) by simp
  ultimately show ?thesis using r by simp
qed

lemma evict_one_wf:
  assumes wf: "cache_wf c" and ne: "lru_list c \<noteq> []"
  shows "cache_wf (evict_one c)"
proof -
  let ?l = "lru_list c"
  let ?e = "snd (last ?l)"
  have l: "?l = butlast ?l @ [last ?l]" using ne by simp
  from wf have d1: "distinct (map fst ?l)" and d2: "distinct (map (url \<circ> snd) ?l)"
    by (simp_all add: cache_wf_def)
  have a1: "distinct (map fst (butlast ?l))" using d1 by (simp add: map_butlast distinct_butlast)
  have a2: "distinct (map (url \<circ> snd) (butlast ?l))"
    using d2 by (simp add: map_butlast distinct_butlast)
  have notin: "url ?e \<notin> (url \<circ> snd) ` set (butlast ?l)"
  proof -
    from d2 have "distinct (map (url \<circ> snd) (butlast ?l @ [last ?l]))" using l by simp
    then show ?thesis by (simp del: append_butlast_last_id)
  qed
  have us: "(url \<circ> snd) ` set ?l = insert (url ?e) ((url \<circ> snd) ` set (butlast ?l))"
  proof -
    have "set ?l = set (butlast ?l @ [last ?l])" using l by simp
    then show ?thesis by (simp del: append_butlast_last_id)
  qed
  have a3: "dom ((cache_map c)(url ?e := None)) = set (map (url \<circ> snd) (butlast ?l))"
    using wf us notin by (simp only: set_map) (auto simp: cache_wf_def)
  have a4: "list_all (\<lambda>n. ((cache_map c)(url ?e := None)) (url (snd n)) = Some (fst n)) (butlast ?l)"
  proof -
    have "\<And>n. n \<in> set (butlast ?l) \<Longrightarrow> url (snd n) \<noteq> url ?e \<and> n \<in> set ?l"
      using notin by (metis comp_apply image_eqI in_set_butlastD)
    with wf show ?thesis unfolding list_all_iff cache_wf_def by simp
  qed
  have a5: "current_size c - entry_bytes ?e = sum_list (map (entry_bytes \<circ> snd) (butlast ?l))"
    using wf sum_list_butlast [OF ne, of "entry_bytes \<circ> snd"] by (simp add: cache_wf_def)
  show ?thesis unfolding cache_wf_def evict_one_def Let_def using a1 a2 a3 a4 a5 by simp
qed

lemma evict_step:
  "capacity_bytes c < current_size c + s \<Longrightarrow> lru_list c \<noteq> [] \<Longrightarrow>
   evict c s = evict (evict_one c) s"
  by (subst evict.simps) simp

lemma evict_stop:
  "\<not> capacity_bytes c < current_size c + s \<or> lru_list c = [] \<Longrightarrow> evict c s = c"
  by (subst evict.simps) auto

lemma evict_wf: "cache_wf c \<Longrightarrow> cache_wf (evict c s)"
proof (induction c s rule: evict.induct)
  case (1 c s)
  show ?case
  proof (cases "capacity_bytes c < current_size c + s \<and> lru_list c \<noteq> []")
    case True
    with 1 show ?thesis by (simp add: evict_step evict_one_wf)
  next
    case False
    then show ?thesis using 1(2) by (simp add: evict_stop)
  qed
qed

lemma evict_capacity: "capacity_bytes (evict c s) = capacity_bytes c"
proof (induction c s rule: evict.induct)
  case (1 c s)
  show ?case
  proof (cases "capacity_bytes c < current_size c + s \<and> lru_list c \<noteq> []")
    case True
    with 1 show ?thesis by (simp add: evict_step evict_one_def Let_def)
  next
    case False
    then show ?thesis by (simp add: evict_stop)
  qed
qed

lemma evict_map_None: "cache_map c u = None \<Longrightarrow> cache_map (evict c s) u = None"
proof (induction c s rule: evict.induct)
  case (1 c s)
  show ?case
  proof (cases "capacity_bytes c < current_size c + s \<and> lru_list c \<noteq> []")
    case True
    with 1 show ?thesis by (simp add: evict_step evict_one_def Let_def)
  next
    case False
    then show ?thesis using 1(2) by (simp add: evict_stop)
  qed
qed

lemma evict_exit:
  "\<not> capacity_bytes (evict c s) < current_size (evict c s) + s \<or> lru_list (evict c s) = []"
proof (induction c s rule: evict.induct)
  case (1 c s)
  show ?case
  proof (cases "capacity_bytes c < current_size c + s \<and> lru_list c \<noteq> []")
    case True
    with 1 show ?thesis by (simp add: evict_step)
  next
    case False
    then show ?thesis by (auto simp: evict_stop)
  qed
qed

lemma put_inv:
  assumes inv: "cache_inv c"
  shows "\<exists>c'. put c u d = Some c' \<and> cache_inv c' \<and> capacity_bytes c' = capacity_bytes c"
proof (cases "string_size u + string_size d > capacity_bytes c")
  case True
  with inv show ?thesis by (simp add: put_def)
next
  case False
  let ?s = "string_size u + string_size d"
  from inv have wf: "cache_wf c" by (simp add: cache_inv_def)
  from remove_existing_wf [OF wf, of u] obtain c1 where
    c1: "remove_existing c u = Some c1" "cache_wf c1" "capacity_bytes c1 = capacity_bytes c"
        "cache_map c1 u = None" by blast
  let ?c2 = "evict c1 ?s"
  let ?it = "new_node (lru_list ?c2)"
  let ?c' = "?c2\<lparr>lru_list := (?it, \<lparr>url = u, data = d\<rparr>) # lru_list ?c2,
                  cache_map := (cache_map ?c2)(u \<mapsto> ?it),
                  current_size := current_size ?c2 + ?s\<rparr>"
  have p: "put c u d = Some ?c'" using False c1(1) by (simp add: put_def Let_def)
  have wf2: "cache_wf ?c2" by (rule evict_wf [OF c1(2)])
  have cap2: "capacity_bytes ?c2 = capacity_bytes c" using c1(3) by (simp add: evict_capacity)
  have none2: "cache_map ?c2 u = None" by (rule evict_map_None [OF c1(4)])
  from wf2 none2 have unew: "u \<notin> (url \<circ> snd) ` set (lru_list ?c2)"
    unfolding cache_wf_def by (metis domIff set_map)
  have fresh: "?it \<notin> fst ` set (lru_list ?c2)" by (rule new_node_fresh)
  have a1: "distinct (map fst (lru_list ?c'))" using wf2 fresh by (simp add: cache_wf_def)
  have a2: "distinct (map (url \<circ> snd) (lru_list ?c'))"
    using wf2 unew by (simp add: cache_wf_def)
  have a3: "dom (cache_map ?c') = set (map (url \<circ> snd) (lru_list ?c'))"
    using wf2 by (simp add: cache_wf_def)
  have a4: "list_all (\<lambda>n. cache_map ?c' (url (snd n)) = Some (fst n)) (lru_list ?c')"
  proof -
    have "\<And>n. n \<in> set (lru_list ?c2) \<Longrightarrow> url (snd n) \<noteq> u"
      using unew by (metis comp_apply image_eqI)
    with wf2 show ?thesis unfolding list_all_iff cache_wf_def by simp
  qed
  have a5: "current_size ?c' = sum_list (map (entry_bytes \<circ> snd) (lru_list ?c'))"
    using wf2 by (simp add: cache_wf_def entry_bytes_def)
  have a6: "current_size ?c' \<le> capacity_bytes ?c'"
  proof (cases "lru_list ?c2 = []")
    case True
    with wf2 have "current_size ?c2 = 0" by (simp add: cache_wf_def)
    with False cap2 show ?thesis by simp
  next
    case False
    with evict_exit [of c1 ?s] cap2 show ?thesis by simp
  qed
  have "cache_inv ?c'" unfolding cache_inv_def cache_wf_def using a1 a2 a3 a4 a5 a6 by blast
  with p cap2 show ?thesis by simp
qed

lemma get_inv:
  assumes "cache_inv c"
  shows "\<exists>v c'. get c u = Some (v, c') \<and> cache_inv c' \<and> capacity_bytes c' = capacity_bytes c"
  using get_wf [of c u] assms unfolding cache_inv_def by auto

lemma new_inv: "cache_inv (LRUCache_new cap)"
  by (simp add: cache_inv_def cache_wf_def LRUCache_new_def)

lemma apply_op_inv:
  assumes "cache_inv c"
  shows "\<exists>c'. apply_op c op = Some c' \<and> cache_inv c' \<and> capacity_bytes c' = capacity_bytes c"
proof (cases op)
  case (Get u)
  with get_inv [OF assms, of u] show ?thesis by (auto simp: apply_op_def)
next
  case (Put u d)
  with put_inv [OF assms, of u d] show ?thesis by (auto simp: apply_op_def)
qed

lemma run_ops_inv:
  "cache_inv c \<Longrightarrow>
   \<exists>c'. run_ops c ops = Some c' \<and> cache_inv c' \<and> capacity_bytes c' = capacity_bytes c"
proof (induction ops arbitrary: c)
  case Nil
  then show ?case by simp
next
  case (Cons op ops)
  from apply_op_inv [OF Cons.prems, of op] obtain c1 where
    c1: "apply_op c op = Some c1" "cache_inv c1" "capacity_bytes c1 = capacity_bytes c" by blast
  from Cons.IH [OF c1(2)] c1 show ?case by auto
qed

lemma get_front:
  assumes "cache_wf c" and "lru_list c = (it, e) # rest"
  shows "get c (url e) = Some (data e, c)"
proof -
  from assms have m: "cache_map c (url e) = Some it"
    by (simp add: cache_wf_def)
  from assms have "it \<notin> fst ` set rest" by (simp add: cache_wf_def)
  then have "list_erase (lru_list c) it = rest"
    using assms(2) by (auto simp: list_erase_def filter_id_conv)
  moreover have "deref (lru_list c) it = Some e" using assms(2) by (simp add: deref_def)
  ultimately have "get c (url e) = Some (data e, c\<lparr>lru_list := lru_list c\<rparr>)"
    using m assms(2) by (simp add: get_def)
  then show ?thesis by simp
qed

lemma put_stores:
  assumes inv: "cache_inv c" and fits: "\<not> string_size u + string_size d > capacity_bytes c"
  shows "\<exists>c1 c' it. remove_existing c u = Some c1 \<and> put c u d = Some c' \<and> cache_inv c'
           \<and> lru_list c' = (it, \<lparr>url = u, data = d\<rparr>) # lru_list (evict c1 (string_size u + string_size d))
           \<and> cache_map c' u = Some it
           \<and> current_size c' = current_size (evict c1 (string_size u + string_size d)) + (string_size u + string_size d)"
proof -
  from inv have wf: "cache_wf c" by (simp add: cache_inv_def)
  from remove_existing_wf [OF wf, of u] obtain c1 where
    c1: "remove_existing c u = Some c1" by blast
  from put_inv [OF inv, of u d] obtain c' where c': "put c u d = Some c'" "cache_inv c'" by blast
  from c'(1) fits c1 show ?thesis using c'(2)
    by (auto simp: put_def Let_def)
qed

lemma string_size_sum:
  assumes "length k + length v < 2 ^ 64"
  shows "unat (string_size k + string_size v) = length k + length v"
proof -
  have "string_size k + string_size v = (of_nat (length k + length v) :: size_t)"
    by (simp add: string_size_def)
  moreover have "unat (of_nat (length k + length v) :: size_t) = length k + length v"
    using assms by (simp add: unat_of_nat del: of_nat_add)
  ultimately show ?thesis by (simp only:)
qed

lemma evict_one_iter_list:
  "lru_list ((evict_one ^^ j) c) = take (length (lru_list c) - j) (lru_list c)"
proof (induction j)
  case 0
  then show ?case by simp
next
  case (Suc j)
  have "lru_list ((evict_one ^^ Suc j) c) = butlast (lru_list ((evict_one ^^ j) c))"
    by (simp add: evict_one_def Let_def)
  also have "\<dots> = butlast (take (length (lru_list c) - j) (lru_list c))"
    by (simp only: Suc.IH)
  also have "\<dots> = take (length (lru_list c) - Suc j) (lru_list c)"
    by (simp add: butlast_take)
  finally show ?case .
qed

lemma evict_one_iter_capacity: "capacity_bytes ((evict_one ^^ j) c) = capacity_bytes c"
  by (induction j) (simp_all add: evict_one_def Let_def)

lemma evict_iter:
  "\<exists>j. evict c s = (evict_one ^^ j) c
     \<and> (\<forall>i<j. capacity_bytes ((evict_one ^^ i) c) < current_size ((evict_one ^^ i) c) + s
               \<and> lru_list ((evict_one ^^ i) c) \<noteq> [])
     \<and> (\<not> capacity_bytes ((evict_one ^^ j) c) < current_size ((evict_one ^^ j) c) + s
          \<or> lru_list ((evict_one ^^ j) c) = [])"
proof (induction c s rule: evict.induct)
  case (1 c s)
  show ?case
  proof (cases "capacity_bytes c < current_size c + s \<and> lru_list c \<noteq> []")
    case True
    with 1 obtain j where j: "evict (evict_one c) s = (evict_one ^^ j) (evict_one c)"
      "\<forall>i<j. capacity_bytes ((evict_one ^^ i) (evict_one c))
                < current_size ((evict_one ^^ i) (evict_one c)) + s
             \<and> lru_list ((evict_one ^^ i) (evict_one c)) \<noteq> []"
      "\<not> capacity_bytes ((evict_one ^^ j) (evict_one c))
           < current_size ((evict_one ^^ j) (evict_one c)) + s
        \<or> lru_list ((evict_one ^^ j) (evict_one c)) = []"
      by blast
    have sw: "\<And>i. (evict_one ^^ i) (evict_one c) = (evict_one ^^ Suc i) c"
      by (simp add: funpow_swap1)
    have "evict c s = (evict_one ^^ Suc j) c" using True j(1) sw by (simp add: evict_step)
    moreover have "\<forall>i<Suc j. capacity_bytes ((evict_one ^^ i) c) < current_size ((evict_one ^^ i) c) + s
               \<and> lru_list ((evict_one ^^ i) c) \<noteq> []"
    proof (intro allI impI)
      fix i assume "i < Suc j"
      show "capacity_bytes ((evict_one ^^ i) c) < current_size ((evict_one ^^ i) c) + s
               \<and> lru_list ((evict_one ^^ i) c) \<noteq> []"
      proof (cases i)
        case 0
        with True show ?thesis by simp
      next
        case (Suc i')
        with \<open>i < Suc j\<close> have "i' < j" by simp
        with j(2) have "capacity_bytes ((evict_one ^^ i') (evict_one c))
              < current_size ((evict_one ^^ i') (evict_one c)) + s
            \<and> lru_list ((evict_one ^^ i') (evict_one c)) \<noteq> []" by blast
        then show ?thesis unfolding sw Suc .
      qed
    qed
    moreover have "\<not> capacity_bytes ((evict_one ^^ Suc j) c) < current_size ((evict_one ^^ Suc j) c) + s
          \<or> lru_list ((evict_one ^^ Suc j) c) = []"
      using j(3) unfolding sw .
    ultimately show ?thesis by blast
  next
    case False
    then have "evict c s = (evict_one ^^ 0) c" by (simp add: evict_stop)
    with False show ?thesis by (intro exI [of _ 0]) auto
  qed
qed

lemma get_hit:
  assumes wf: "cache_wf c" and hit: "cache_map c k = Some it"
  shows "\<exists>e c'. get c k = Some (data e, c') \<and> url e = k \<and> cache_wf c'
           \<and> lru_list c' = (it, e) # list_erase (lru_list c) it
           \<and> (it, e) \<in> set (lru_list c)"
proof -
  from wf_lookup [OF wf hit] obtain e where
    e: "deref (lru_list c) it = Some e" "url e = k" "(it, e) \<in> set (lru_list c)" by blast
  then have g: "get c k = Some (data e, c\<lparr>lru_list := (it, e) # list_erase (lru_list c) it\<rparr>)"
    using hit by (simp add: get_def)
  from get_wf [OF wf, of k] g have "cache_wf (c\<lparr>lru_list := (it, e) # list_erase (lru_list c) it\<rparr>)"
    by auto
  with g e show ?thesis by auto
qed


lemma example_cache_inv: "cache_inv example_cache"
  by (auto simp: example_cache_def cache_inv_def cache_wf_def entry_bytes_def string_size_def)

lemma example_put_evicts:
  "map_option lru_list (put example_cache ''C'' ''cccc'')
     = Some [(3, \<lparr>url = ''C'', data = ''cccc''\<rparr>), (2, \<lparr>url = ''B'', data = ''bb''\<rparr>)]"
  by (simp add: example_cache_def put_def remove_existing_def evict.simps evict_one_def
      new_node_def entry_bytes_def string_size_def Let_def)

text \<open>
  With capacity 100, inserting \<open>A\<close> (60 bytes) and then \<open>B\<close> (60 bytes) leaves only \<open>B\<close> in
  the list, with \<open>current_size = 60\<close>.
\<close>

lemma example_eviction_scenario:
  "map_option (\<lambda>c. (current_size c, lru_list c))
     (run_ops (LRUCache_new 100)
        [Put ''A'' (replicate 59 (CHR ''a'')), Put ''B'' (replicate 59 (CHR ''b''))])
   = Some (60, [(1, \<lparr>url = ''B'', data = replicate 59 (CHR ''b'')\<rparr>)])"
  by (simp add: LRUCache_new_def apply_op_def put_def remove_existing_def evict.simps
      evict_one_def new_node_def entry_bytes_def string_size_def Let_def)

section \<open>Properties of the request handler and the worker\<close>

lemma tolower_upper:
  "65 \<le> (of_char c :: nat) \<Longrightarrow> (of_char c :: nat) \<le> 90 \<Longrightarrow>
   (of_char (tolower c) :: nat) = of_char c + 32"
  by (simp add: tolower_def)

lemma tolower_other:
  "\<not> (65 \<le> (of_char c :: nat) \<and> (of_char c :: nat) \<le> 90) \<Longrightarrow> tolower c = c"
  by (auto simp: tolower_def)

lemma tolower_eq_iff: "tolower a = tolower b \<longleftrightarrow> same_letter a b"
proof -
  have "tolower a = tolower b \<longleftrightarrow> (of_char (tolower a) :: nat) = of_char (tolower b)"
    by simp
  also have "\<dots> \<longleftrightarrow> same_letter a b"
  proof (cases "65 \<le> (of_char a :: nat) \<and> (of_char a :: nat) \<le> 90")
    case ua: True
    show ?thesis
    proof (cases "65 \<le> (of_char b :: nat) \<and> (of_char b :: nat) \<le> 90")
      case True
      with ua show ?thesis by (auto simp: tolower_upper same_letter_def)
    next
      case False
      with ua show ?thesis by (auto simp: tolower_upper tolower_other same_letter_def)
    qed
  next
    case na: False
    show ?thesis
    proof (cases "65 \<le> (of_char b :: nat) \<and> (of_char b :: nat) \<le> 90")
      case True
      with na show ?thesis by (auto simp: tolower_upper tolower_other same_letter_def)
    next
      case False
      with na show ?thesis by (auto simp: tolower_other same_letter_def)
    qed
  qed
  finally show ?thesis .
qed

lemma map_tolower_eq_iff: "map tolower a = map tolower b \<longleftrightarrow> ci_equal a b"
  unfolding ci_equal_def
proof (induction a arbitrary: b)
  case Nil
  then show ?case by auto
next
  case (Cons x a)
  then show ?case by (cases b) (auto simp: tolower_eq_iff)
qed

lemma lower_host: "map tolower ''Host'' = ''host''"
  by (simp add: tolower_def char_of_eq_iff)

lemma lower_connection: "map tolower ''Connection'' = ''connection''"
  by (simp add: tolower_def char_of_eq_iff)

lemma dropped_header_code:
  "dropped_header h \<longleftrightarrow> map tolower (key h) = ''host'' \<or> map tolower (key h) = ''connection''"
  unfolding dropped_header_def
  by (simp only: map_tolower_eq_iff [symmetric] lower_host lower_connection)

lemma forward_headers_eq:
  "forward_headers hs req_str
     = req_str @ concat (map header_line (filter (\<lambda>h. \<not> dropped_header h) hs))"
  by (induction hs arbitrary: req_str) (simp_all add: dropped_header_code header_line_def Let_def)

lemma string_find_iff: "string_find s pat \<noteq> None \<longleftrightarrow> (\<exists>a b. s = a @ pat @ b)"
proof (induction s)
  case Nil
  then show ?case by auto
next
  case (Cons c s)
  show ?case
  proof (cases "take (length pat) (c # s) = pat")
    case True
    then have "c # s = [] @ pat @ drop (length pat) (c # s)"
      by (metis append_Nil append_take_drop_id)
    with True show ?thesis by (simp del: append_Nil) blast
  next
    case False
    have "(\<exists>a b. c # s = a @ pat @ b) \<longleftrightarrow> (\<exists>a b. s = a @ pat @ b)"
    proof
      assume "\<exists>a b. c # s = a @ pat @ b"
      then obtain a b where ab: "c # s = a @ pat @ b" by blast
      show "\<exists>a b. s = a @ pat @ b"
      proof (cases a)
        case Nil
        with ab have "take (length pat) (c # s) = pat" by simp
        with False show ?thesis by simp
      next
        case (Cons x a')
        with ab have "s = a' @ pat @ b" by simp
        then show ?thesis by blast
      qed
    next
      assume "\<exists>a b. s = a @ pat @ b"
      then obtain a b where "s = a @ pat @ b" by blast
      then have "c # s = (c # a) @ pat @ b" by simp
      then show "\<exists>a b. c # s = a @ pat @ b" by blast
    qed
    with False Cons.IH show ?thesis by simp
  qed
qed

lemma string_find_Some:
  "string_find s pat = Some n \<Longrightarrow>
   n + length pat \<le> length s \<and> take (length pat) (drop n s) = pat"
proof (induction s arbitrary: n)
  case Nil
  then show ?case by (simp split: if_splits)
next
  case (Cons c s)
  show ?case
  proof (cases "take (length pat) (c # s) = pat")
    case True
    with Cons.prems have n: "n = 0" by simp
    from True have "length (take (length pat) (c # s)) = length pat" by simp
    then have "length pat \<le> length (c # s)" by (simp only: length_take min_def split: if_splits)
    with n True show ?thesis by simp
  next
    case False
    with Cons.prems obtain m where m: "string_find s pat = Some m" "n = Suc m" by auto
    from Cons.IH [OF m(1)] m(2) show ?thesis by simp
  qed
qed

lemma no_CR_no_terminator:
  assumes "CHR 0x0D \<notin> set s"
  shows "string_find s (CRLF @ CRLF) = None"
proof (rule ccontr)
  assume "string_find s (CRLF @ CRLF) \<noteq> None"
  then obtain a b where "s = a @ (CRLF @ CRLF) @ b" unfolding string_find_iff by blast
  then have "CHR 0x0D \<in> set s" by (simp add: CRLF_def)
  with assms show False by simp
qed

lemma chunk_bytes_simps:
  "chunk_bytes (Bytes b) = b" "chunk_bytes RecvError = []"
  by (simp_all add: chunk_bytes_def)

lemma header_prefix_split:
  assumes "string_find s (CRLF @ CRLF) \<noteq> None"
  shows "\<exists>pre tail. s = pre @ CRLF @ CRLF @ tail \<and> header_prefix s = pre @ CRLF @ CRLF"
proof -
  let ?k = "length (CRLF @ CRLF)"
  from assms obtain n where n: "string_find s (CRLF @ CRLF) = Some n" by blast
  from string_find_Some [OF n] have le: "n + ?k \<le> length s"
    and t: "take ?k (drop n s) = CRLF @ CRLF" by simp_all
  have p: "take (n + ?k) s = take n s @ (CRLF @ CRLF)"
    using t by (simp only: take_add)
  have "take (n + ?k) s @ drop (n + ?k) s = s" by (rule append_take_drop_id)
  then have "s = take n s @ CRLF @ CRLF @ drop (n + ?k) s" by (simp only: p append_assoc)
  moreover have "header_prefix s = take n s @ CRLF @ CRLF"
    using n p by (simp add: header_prefix_def)
  ultimately show ?thesis by blast
qed

lemma recv_headers_chunks:
  assumes "\<forall>b\<in>set cs. b \<noteq> []"
    and "\<forall>m<length cs. length (raw @ concat (take m cs)) < MAX_HEADER_SIZE
            \<and> string_find (raw @ concat (take m cs)) (CRLF @ CRLF) = None"
  shows "recv_headers (map Bytes cs @ rest) raw (length raw) =
           (if cs \<noteq> [] \<and> string_find (raw @ concat cs) (CRLF @ CRLF) \<noteq> None
            then (raw @ concat cs, length (raw @ concat cs), True)
            else recv_headers rest (raw @ concat cs) (length (raw @ concat cs)))"
  using assms
proof (induction cs arbitrary: raw)
  case Nil
  then show ?case by simp
next
  case (Cons b cs)
  from Cons.prems(1) have b: "b \<noteq> []" and bs: "\<forall>b\<in>set cs. b \<noteq> []" by simp_all
  from Cons.prems(2) have r0: "length raw < MAX_HEADER_SIZE" by fastforce
  have step: "\<forall>m<length cs. length ((raw @ b) @ concat (take m cs)) < MAX_HEADER_SIZE
            \<and> string_find ((raw @ b) @ concat (take m cs)) (CRLF @ CRLF) = None"
  proof (intro allI impI)
    fix m assume "m < length cs"
    then have "Suc m < length (b # cs)" by simp
    with Cons.prems(2) have "length (raw @ concat (take (Suc m) (b # cs))) < MAX_HEADER_SIZE
            \<and> string_find (raw @ concat (take (Suc m) (b # cs))) (CRLF @ CRLF) = None" by blast
    then show "length ((raw @ b) @ concat (take m cs)) < MAX_HEADER_SIZE
            \<and> string_find ((raw @ b) @ concat (take m cs)) (CRLF @ CRLF) = None" by simp
  qed
  show ?case
  proof (cases "string_find (raw @ b) (CRLF @ CRLF) = None")
    case True
    have "recv_headers (map Bytes (b # cs) @ rest) raw (length raw)
            = recv_headers (map Bytes cs @ rest) (raw @ b) (length (raw @ b))"
      using r0 b True by (simp add: Let_def)
    also have "\<dots> = (if cs \<noteq> [] \<and> string_find ((raw @ b) @ concat cs) (CRLF @ CRLF) \<noteq> None
            then ((raw @ b) @ concat cs, length ((raw @ b) @ concat cs), True)
            else recv_headers rest ((raw @ b) @ concat cs) (length ((raw @ b) @ concat cs)))"
      by (rule Cons.IH [OF bs step])
    finally show ?thesis using True by (cases cs) simp_all
  next
    case False
    have cs: "cs = []"
    proof (rule ccontr)
      assume "cs \<noteq> []"
      then have "1 < length (b # cs)" by (cases cs) simp_all
      with Cons.prems(2) have "string_find (raw @ concat (take 1 (b # cs))) (CRLF @ CRLF) = None"
        by blast
      with False show False by simp
    qed
    have "recv_headers (map Bytes (b # cs) @ rest) raw (length raw)
            = (raw @ b, length (raw @ b), True)"
      using r0 b False by (simp add: Let_def)
    with False cs show ?thesis by simp
  qed
qed

lemma recv_headers_closed:
  "rest = [] \<or> (\<exists>r. rest = Bytes [] # r) \<or> (\<exists>r. rest = RecvError # r) \<Longrightarrow>
   recv_headers rest raw n = (raw, n, False)"
  by (cases rest) auto

lemma recv_headers_full:
  "MAX_HEADER_SIZE \<le> n \<Longrightarrow> recv_headers rest raw n = (raw, n, False)"
  by (cases rest) auto

lemma recv_headers_complete:
  assumes "string_find raw (CRLF @ CRLF) = None"
    and "recv_headers evs raw tot = (raw', tot', True)"
  shows "\<exists>n. 0 < n \<and> n \<le> length evs
           \<and> raw' = raw @ concat (map chunk_bytes (take n evs))
           \<and> string_find raw' (CRLF @ CRLF) \<noteq> None
           \<and> string_find (raw @ concat (map chunk_bytes (take (n - 1) evs))) (CRLF @ CRLF) = None"
  using assms
proof (induction evs arbitrary: raw tot)
  case Nil
  then show ?case by simp
next
  case (Cons r evs)
  from Cons.prems(2) obtain b where b: "r = Bytes b" "b \<noteq> []" "tot < MAX_HEADER_SIZE"
    by (cases r) (auto split: if_splits)
  show ?case
  proof (cases "string_find (raw @ b) (CRLF @ CRLF) = None")
    case False
    with Cons.prems b have "raw' = raw @ b" by (simp add: Let_def)
    with False Cons.prems(1) b show ?thesis
      by (intro exI [of _ 1]) (simp add: chunk_bytes_simps)
  next
    case True
    with Cons.prems b have "recv_headers evs (raw @ b) (tot + length b) = (raw', tot', True)"
      by (simp add: Let_def)
    from Cons.IH [OF True this] obtain n where n: "0 < n" "n \<le> length evs"
      "raw' = (raw @ b) @ concat (map chunk_bytes (take n evs))"
      "string_find raw' (CRLF @ CRLF) \<noteq> None"
      "string_find ((raw @ b) @ concat (map chunk_bytes (take (n - 1) evs))) (CRLF @ CRLF) = None"
      by blast
    from n(1) have "take (Suc n - 1) (r # evs) = r # take (n - 1) evs"
      by (cases n) simp_all
    with n b show ?thesis
      by (intro exI [of _ "Suc n"]) (simp add: chunk_bytes_simps)
  qed
qed

lemma recv_cases_exhaustive:
  assumes "string_find raw (CRLF @ CRLF) = None"
  shows "\<exists>cs rest. evs = map Bytes cs @ rest \<and> (\<forall>b\<in>set cs. b \<noteq> [])
     \<and> (\<forall>m<length cs. length (raw @ concat (take m cs)) < MAX_HEADER_SIZE
           \<and> string_find (raw @ concat (take m cs)) (CRLF @ CRLF) = None)
     \<and> ((cs \<noteq> [] \<and> string_find (raw @ concat cs) (CRLF @ CRLF) \<noteq> None)
        \<or> (string_find (raw @ concat cs) (CRLF @ CRLF) = None
             \<and> MAX_HEADER_SIZE \<le> length (raw @ concat cs))
        \<or> (string_find (raw @ concat cs) (CRLF @ CRLF) = None
             \<and> (rest = [] \<or> (\<exists>r. rest = Bytes [] # r) \<or> (\<exists>r. rest = RecvError # r))))"
  using assms
proof (induction evs arbitrary: raw)
  case Nil
  then show ?case by (intro exI [of _ "[]"]) simp
next
  case (Cons ev evs)
  show ?case
  proof (cases "MAX_HEADER_SIZE \<le> length raw")
    case True
    with Cons.prems show ?thesis
      by (intro exI [of _ "[]"] exI [of _ "ev # evs"]) simp
  next
    case small: False
    show ?thesis
    proof (cases "\<exists>b. ev = Bytes b \<and> b \<noteq> []")
      case False
      then have "ev = RecvError \<or> ev = Bytes []" by (cases ev) auto
      with Cons.prems show ?thesis
        by (intro exI [of _ "[]"] exI [of _ "ev # evs"]) auto
    next
      case True
      then obtain b where b: "ev = Bytes b" "b \<noteq> []" by blast
      show ?thesis
      proof (cases "string_find (raw @ b) (CRLF @ CRLF) = None")
        case False
        have "\<forall>m<length [b]. length (raw @ concat (take m [b])) < MAX_HEADER_SIZE
           \<and> string_find (raw @ concat (take m [b])) (CRLF @ CRLF) = None"
          using small Cons.prems by simp
        with False b show ?thesis
          by (intro exI [of _ "[b]"] exI [of _ evs]) simp
      next
        case True
        from Cons.IH [OF True] obtain cs rest where
          c: "evs = map Bytes cs @ rest" "\<forall>b\<in>set cs. b \<noteq> []"
             "\<forall>m<length cs. length ((raw @ b) @ concat (take m cs)) < MAX_HEADER_SIZE
                \<and> string_find ((raw @ b) @ concat (take m cs)) (CRLF @ CRLF) = None"
             "(cs \<noteq> [] \<and> string_find ((raw @ b) @ concat cs) (CRLF @ CRLF) \<noteq> None)
              \<or> (string_find ((raw @ b) @ concat cs) (CRLF @ CRLF) = None
                   \<and> MAX_HEADER_SIZE \<le> length ((raw @ b) @ concat cs))
              \<or> (string_find ((raw @ b) @ concat cs) (CRLF @ CRLF) = None
                   \<and> (rest = [] \<or> (\<exists>r. rest = Bytes [] # r) \<or> (\<exists>r. rest = RecvError # r)))"
          by blast
        have before: "\<forall>m<length (b # cs). length (raw @ concat (take m (b # cs))) < MAX_HEADER_SIZE
                \<and> string_find (raw @ concat (take m (b # cs))) (CRLF @ CRLF) = None"
        proof (intro allI impI)
          fix m assume m: "m < length (b # cs)"
          show "length (raw @ concat (take m (b # cs))) < MAX_HEADER_SIZE
                \<and> string_find (raw @ concat (take m (b # cs))) (CRLF @ CRLF) = None"
          proof (cases m)
            case 0
            with small Cons.prems show ?thesis by simp
          next
            case (Suc m')
            with m have "m' < length cs" by simp
            with c(3) Suc show ?thesis by simp
          qed
        qed
        from c(4) have last: "(b # cs \<noteq> [] \<and> string_find (raw @ concat (b # cs)) (CRLF @ CRLF) \<noteq> None)
              \<or> (string_find (raw @ concat (b # cs)) (CRLF @ CRLF) = None
                   \<and> MAX_HEADER_SIZE \<le> length (raw @ concat (b # cs)))
              \<or> (string_find (raw @ concat (b # cs)) (CRLF @ CRLF) = None
                   \<and> (rest = [] \<or> (\<exists>r. rest = Bytes [] # r) \<or> (\<exists>r. rest = RecvError # r)))"
          by auto
        have "ev # evs = map Bytes (b # cs) @ rest" using b c(1) by simp
        moreover have "\<forall>x\<in>set (b # cs). x \<noteq> []" using b c(2) by simp
        ultimately show ?thesis using before last by blast
      qed
    qed
  qed
qed

lemma get_cached_value:
  assumes inv: "cache_inv c"
  shows "\<exists>c'. get c k = Some (case cached_value c k of None \<Rightarrow> [] | Some v \<Rightarrow> v, c')
           \<and> cache_inv c' \<and> capacity_bytes c' = capacity_bytes c
           \<and> (\<forall>k'. cached_value c' k' = cached_value c k')"
proof -
  from inv have wf: "cache_wf c" by (simp add: cache_inv_def)
  from get_wf [OF wf, of k] obtain r c' where
    g: "get c k = Some (r, c')" "cache_wf c'" "capacity_bytes c' = capacity_bytes c"
       "current_size c' = current_size c" "cache_map c' = cache_map c"
       "set (lru_list c') = set (lru_list c)" by blast
  have d: "\<And>it. deref (lru_list c') it = deref (lru_list c) it"
  proof -
    fix it
    from wf g(2) have "distinct (map fst (lru_list c))" "distinct (map fst (lru_list c'))"
      by (simp_all add: cache_wf_def)
    then have "\<And>e. deref (lru_list c') it = Some e \<longleftrightarrow> deref (lru_list c) it = Some e"
      using g(6) by (simp add: deref_iff)
    then show "deref (lru_list c') it = deref (lru_list c) it"
      by (metis option.exhaust)
  qed
  have cv: "\<forall>k'. cached_value c' k' = cached_value c k'"
    by (simp add: cached_value_def g(5) d split: option.splits)
  have r: "r = (case cached_value c k of None \<Rightarrow> [] | Some v \<Rightarrow> v)"
  proof (cases "cache_map c k")
    case None
    with g(1) show ?thesis by (simp add: get_def cached_value_def)
  next
    case (Some it)
    from wf_lookup [OF wf Some] obtain e where "deref (lru_list c) it = Some e" by blast
    with Some g(1) show ?thesis by (simp add: get_def cached_value_def)
  qed
  from inv g have "cache_inv c'" by (simp add: cache_inv_def)
  with g r cv show ?thesis by blast
qed

lemma put_cached_value:
  assumes inv: "cache_inv c" and fits: "\<not> string_size k + string_size v > capacity_bytes c"
  shows "\<exists>c'. put c k v = Some c' \<and> cache_inv c' \<and> cached_value c' k = Some v
           \<and> capacity_bytes c' = capacity_bytes c"
proof -
  from put_stores [OF inv fits] obtain c' it where
    c': "put c k v = Some c'" "cache_inv c'"
        "lru_list c' = (it, \<lparr>url = k, data = v\<rparr>) # tl (lru_list c')"
        "cache_map c' k = Some it" by auto
  have "deref (lru_list c') it = Some \<lparr>url = k, data = v\<rparr>"
    by (subst c'(3)) (simp add: deref_def)
  with c'(4) have "cached_value c' k = Some v" by (simp add: cached_value_def)
  moreover from put_inv [OF inv, of k v] c'(1) have "capacity_bytes c' = capacity_bytes c" by auto
  ultimately show ?thesis using c'(1,2) by blast
qed

lemma relay_loop_prefix:
  "\<exists>n. n \<le> length evs
     \<and> fst (relay_loop evs send_ok i temp sent) = temp @ concat (map chunk_bytes (take n evs))
     \<and> (\<forall>j<n. \<exists>b. evs ! j = Bytes b \<and> b \<noteq> [] \<and> send_ok (i + j))
     \<and> (n = length evs \<or> evs ! n = RecvError \<or> evs ! n = Bytes []
          \<or> (\<exists>b. evs ! n = Bytes b \<and> \<not> send_ok (i + n)))"
proof (induction evs send_ok i temp sent rule: relay_loop.induct)
  case (1 send_ok i temp sent)
  show ?case by simp
next
  case (2 sock send_ok i temp sent)
  show ?case by (intro exI [of _ 0]) simp
next
  case (3 buffer sock send_ok i temp sent)
  show ?case
  proof (cases "length buffer = 0")
    case True
    then show ?thesis by (intro exI [of _ 0]) simp
  next
    case nonempty: False
    show ?thesis
    proof (cases "send_ok i")
      case False
      with nonempty show ?thesis by (intro exI [of _ 0]) simp
    next
      case True
      from 3 [OF nonempty] True obtain n where n: "n \<le> length sock"
        "fst (relay_loop sock send_ok (Suc i) (temp @ buffer) (sent @ [Sent buffer]))
           = (temp @ buffer) @ concat (map chunk_bytes (take n sock))"
        "\<forall>j<n. \<exists>b. sock ! j = Bytes b \<and> b \<noteq> [] \<and> send_ok (Suc i + j)"
        "n = length sock \<or> sock ! n = RecvError \<or> sock ! n = Bytes []
          \<or> (\<exists>b. sock ! n = Bytes b \<and> \<not> send_ok (Suc i + n))" by auto
      have a: "fst (relay_loop (Bytes buffer # sock) send_ok i temp sent)
            = temp @ concat (map chunk_bytes (take (Suc n) (Bytes buffer # sock)))"
        using nonempty True n(2) by (simp add: chunk_bytes_def)
      have b: "\<forall>j<Suc n. \<exists>b. (Bytes buffer # sock) ! j = Bytes b \<and> b \<noteq> [] \<and> send_ok (i + j)"
      proof (intro allI impI)
        fix j assume "j < Suc n"
        show "\<exists>b. (Bytes buffer # sock) ! j = Bytes b \<and> b \<noteq> [] \<and> send_ok (i + j)"
        proof (cases j)
          case 0
          with nonempty True show ?thesis by simp
        next
          case (Suc j')
          with \<open>j < Suc n\<close> n(3) show ?thesis by simp
        qed
      qed
      have c: "Suc n = length (Bytes buffer # sock) \<or> (Bytes buffer # sock) ! Suc n = RecvError
          \<or> (Bytes buffer # sock) ! Suc n = Bytes []
          \<or> (\<exists>b. (Bytes buffer # sock) ! Suc n = Bytes b \<and> \<not> send_ok (i + Suc n))"
        using n(4) by simp
      from n(1) a b c show ?thesis by (intro exI [of _ "Suc n"]) simp
    qed
  qed
qed

lemma handle_request_relay:
  assumes inv: "cache_inv c" and conn: "connect_ok server" and sent: "request_sent server"
  shows "\<exists>n temp c' outs.
           n \<le> length (responses server)
         \<and> temp = concat (map chunk_bytes (take n (responses server)))
         \<and> (\<forall>j<n. \<exists>b. responses server ! j = Bytes b \<and> b \<noteq> [] \<and> send_ok j)
         \<and> (n = length (responses server) \<or> responses server ! n = RecvError
              \<or> responses server ! n = Bytes []
              \<or> (\<exists>b. responses server ! n = Bytes b \<and> \<not> send_ok n))
         \<and> temp = fst (relay_loop (responses server) send_ok 0 [] [])
         \<and> put c u temp = Some c' \<and> cache_inv c'
         \<and> handle_request c server send_ok request u =
             Some \<lparr>ret = 0, to_client = outs, to_remote = Some (build_request request), cache = c'\<rparr>
         \<and> (\<not> string_size u + string_size temp > capacity_bytes c \<longrightarrow>
               cached_value c' u = Some temp)"
proof -
  obtain temp outs where rl: "relay_loop (responses server) send_ok 0 [] [] = (temp, outs)"
    by (cases "relay_loop (responses server) send_ok 0 [] []") simp
  from relay_loop_prefix [of "responses server" send_ok 0 "[]" "[]"] rl obtain n where
    n: "n \<le> length (responses server)"
       "temp = concat (map chunk_bytes (take n (responses server)))"
       "\<forall>j<n. \<exists>b. responses server ! j = Bytes b \<and> b \<noteq> [] \<and> send_ok j"
       "n = length (responses server) \<or> responses server ! n = RecvError
          \<or> responses server ! n = Bytes []
          \<or> (\<exists>b. responses server ! n = Bytes b \<and> \<not> send_ok n)" by auto
  from put_inv [OF inv, of u temp] obtain c' where c': "put c u temp = Some c'" "cache_inv c'"
    by blast
  have h: "handle_request c server send_ok request u =
      Some \<lparr>ret = 0, to_client = outs, to_remote = Some (build_request request), cache = c'\<rparr>"
    using conn sent rl c' by (simp add: handle_request_def Let_def)
  have f: "\<not> string_size u + string_size temp > capacity_bytes c \<longrightarrow> cached_value c' u = Some temp"
  proof
    assume "\<not> string_size u + string_size temp > capacity_bytes c"
    from put_cached_value [OF inv this] c' show "cached_value c' u = Some temp" by simp
  qed
  from rl have t: "temp = fst (relay_loop (responses server) send_ok 0 [] [])" by simp
  from n t c' h f show ?thesis by blast
qed

lemma dispatch_hit:
  assumes inv: "cache_inv c" and hit: "cached_value c raw = Some v" and ne: "v \<noteq> []"
  shows "\<exists>c1. lookup_and_dispatch c env raw =
           Some \<lparr>client_outs = [Sent v], remote_request = None, cache_after = c1\<rparr>"
proof -
  from get_cached_value [OF inv, of raw] hit obtain c1 where "get c raw = Some (v, c1)" by auto
  with ne show ?thesis by (simp add: lookup_and_dispatch_def)
qed

lemma dispatch_miss:
  assumes inv: "cache_inv c"
    and miss: "cached_value c raw = None \<or> cached_value c raw = Some []"
    and parsed: "parse env raw = Some request" and meth: "method' request = ''GET''"
    and conn: "connect_ok (remote env)" and sent: "request_sent (remote env)"
  shows "\<exists>r temp. lookup_and_dispatch c env raw = Some r
           \<and> temp = fst (relay_loop (responses (remote env)) (client_send_ok env) 0 [] [])
           \<and> remote_request r = Some (build_request request)
           \<and> (\<not> string_size raw + string_size temp > capacity_bytes c \<longrightarrow>
                 cached_value (cache_after r) raw = Some temp)"
proof -
  from get_cached_value [OF inv, of raw] miss obtain c1 where
    c1: "get c raw = Some ([], c1)" "cache_inv c1" "capacity_bytes c1 = capacity_bytes c" by auto
  from handle_request_relay [OF c1(2) conn sent, of "client_send_ok env" raw request]
  obtain temp c' outs where
    h: "temp = fst (relay_loop (responses (remote env)) (client_send_ok env) 0 [] [])"
       "handle_request c1 (remote env) (client_send_ok env) request raw =
          Some \<lparr>ret = 0, to_client = outs, to_remote = Some (build_request request), cache = c'\<rparr>"
       "\<not> string_size raw + string_size temp > capacity_bytes c1 \<longrightarrow>
               cached_value c' raw = Some temp" by blast
  have "lookup_and_dispatch c env raw =
      Some \<lparr>client_outs = outs, remote_request = Some (build_request request), cache_after = c'\<rparr>"
    using c1(1) parsed meth h(2) by (simp add: lookup_and_dispatch_def)
  with h(1,3) c1(3) show ?thesis by simp
qed

text \<open>Facts about the example states.\<close>

lemma example_request_method: "method' example_request = ''GET''"
  by (simp add: example_request_def)

lemma example_cache_hit_inv: "cache_inv example_cache_hit"
  by (auto simp: example_cache_hit_def example_raw_def CRLF_def cache_inv_def cache_wf_def
      entry_bytes_def string_size_def)

lemma example_cache_empty_value_inv: "cache_inv example_cache_empty_value"
  by (auto simp: example_cache_empty_value_def example_raw_def CRLF_def cache_inv_def
      cache_wf_def entry_bytes_def string_size_def)

lemma example_recv: "recv_headers (client_recv (example_env [Bytes example_raw])) [] 0
    = (example_raw, 78, True)"
  by (simp add: example_env_def example_raw_def CRLF_def MAX_HEADER_SIZE_def)

lemma blocks_before:
  "\<forall>m<length (replicate 16 block_a).
     length (concat (take m (replicate 16 block_a))) < MAX_HEADER_SIZE
     \<and> string_find (concat (take m (replicate 16 block_a))) (CRLF @ CRLF) = None"
proof (intro allI impI conjI)
  fix m assume "m < length (replicate 16 block_a)"
  then have m: "m < 16" by simp
  then have "length (concat (take m (replicate 16 block_a))) = m * 4096"
    by (simp add: block_a_def length_concat sum_list_replicate min_def)
  with m show "length (concat (take m (replicate 16 block_a))) < MAX_HEADER_SIZE"
    by (simp add: MAX_HEADER_SIZE_def)
  have "CHR 0x0D \<notin> set (concat (take m (replicate 16 block_a)))"
    by (auto simp: block_a_def)
  then show "string_find (concat (take m (replicate 16 block_a))) (CRLF @ CRLF) = None"
    by (rule no_CR_no_terminator)
qed

lemma blocks_full:
  "string_find (concat (replicate 16 block_a)) (CRLF @ CRLF) = None
   \<and> MAX_HEADER_SIZE \<le> length (concat (replicate 16 block_a))"
proof
  have "CHR 0x0D \<notin> set (concat (replicate 16 block_a))" by (auto simp: block_a_def)
  then show "string_find (concat (replicate 16 block_a)) (CRLF @ CRLF) = None"
    by (rule no_CR_no_terminator)
  show "MAX_HEADER_SIZE \<le> length (concat (replicate 16 block_a))"
    by (simp add: block_a_def length_concat sum_list_replicate MAX_HEADER_SIZE_def)
qed

lemma boundary_before:
  "\<forall>m<length (replicate 15 block_a @ [last_block]).
     length (concat (take m (replicate 15 block_a @ [last_block]))) < MAX_HEADER_SIZE
     \<and> string_find (concat (take m (replicate 15 block_a @ [last_block]))) (CRLF @ CRLF) = None"
proof (intro allI impI conjI)
  fix m assume "m < length (replicate 15 block_a @ [last_block])"
  then have m: "m < 16" by simp
  then have t: "take m (replicate 15 block_a @ [last_block]) = replicate m block_a"
    by (simp add: min_def)
  have "length (concat (replicate m block_a)) = m * 4096"
    by (simp add: block_a_def length_concat sum_list_replicate)
  with m t show "length (concat (take m (replicate 15 block_a @ [last_block]))) < MAX_HEADER_SIZE"
    by (simp add: MAX_HEADER_SIZE_def)
  have "CHR 0x0D \<notin> set (concat (replicate m block_a))"
    by (auto simp: block_a_def)
  then have "string_find (concat (replicate m block_a)) (CRLF @ CRLF) = None"
    by (rule no_CR_no_terminator)
  with t show "string_find (concat (take m (replicate 15 block_a @ [last_block]))) (CRLF @ CRLF) = None"
    by simp
qed

lemma boundary_full:
  "replicate 15 block_a @ [last_block] \<noteq> []
   \<and> string_find (concat (replicate 15 block_a @ [last_block])) (CRLF @ CRLF) \<noteq> None"
proof
  show "replicate 15 block_a @ [last_block] \<noteq> []" by simp
  have "concat (replicate 15 block_a @ [last_block])
      = (concat (replicate 15 block_a) @ replicate 4092 (CHR ''a'')) @ (CRLF @ CRLF) @ []"
    by (simp add: last_block_def)
  then show "string_find (concat (replicate 15 block_a @ [last_block])) (CRLF @ CRLF) \<noteq> None"
    unfolding string_find_iff by blast
qed

lemma boundary_length: "length (concat (replicate 15 block_a @ [last_block])) = 65536"
  by (simp add: block_a_def last_block_def length_concat sum_list_replicate CRLF_def)

lemma nonempty_blocks:
  "\<forall>b\<in>set (replicate 16 block_a). b \<noteq> []"
  "\<forall>b\<in>set (replicate 15 block_a @ [last_block]). b \<noteq> []"
  by (auto simp: block_a_def last_block_def)


section \<open>Claims about the cache\<close>

text \<open>
  C3. Start from the empty cache of any capacity and run any sequence of \<open>get\<close> and \<open>put\<close>
  operations. After every completed operation (after every prefix \<open>take n ops\<close> of the
  sequence) the operations have returned normally and \<open>current_size \<le> capacity_bytes\<close>
  holds, in the unsigned 64-bit arithmetic of the code.
\<close>

theorem size_never_exceeds_capacity:
  "\<exists>c. run_ops (LRUCache_new cap) (take n ops) = Some c \<and> current_size c \<le> capacity_bytes c
       \<and> capacity_bytes c = cap"
proof -
  from run_ops_inv [OF new_inv, of cap "take n ops"] show ?thesis
    by (auto simp: cache_inv_def LRUCache_new_def)
qed

theorem size_never_exceeds_capacity_witness:
  "\<exists>c. run_ops (LRUCache_new 10)
          (take 2 [Put ''A'' ''aaaaa'', Put ''B'' ''bbbbb'', Get ''A'']) = Some c
       \<and> current_size c \<le> capacity_bytes c \<and> capacity_bytes c = 10"
  by (rule size_never_exceeds_capacity)

text \<open>
  C4. Let \<open>k\<close> and \<open>v\<close> be strings whose sizes add up without overflow of \<^verbatim>\<open>size_t\<close> (as
  for any two strings that exist in memory). In every cache state, if
  \<open>len(k) + len(v) > capacity_bytes\<close> then \<open>put(k, v)\<close> returns the cache unchanged: the
  recency list, the index and \<open>current_size\<close> are identical. If
  \<open>len(k) + len(v) = capacity_bytes\<close>, in a state that satisfies the representation
  invariant, the entry is stored: it is the front node of the list, the index maps \<open>k\<close>
  to that node, and \<open>get(k)\<close> returns \<open>v\<close>.
\<close>

theorem put_capacity_boundary:
  assumes "length k + length v < 2 ^ 64"
  shows "(unat (capacity_bytes c) < length k + length v \<longrightarrow> put c k v = Some c) \<and>
         (cache_inv c \<and> length k + length v = unat (capacity_bytes c) \<longrightarrow>
            (\<exists>c' it. put c k v = Some c' \<and> hd (lru_list c') = (it, \<lparr>url = k, data = v\<rparr>)
               \<and> lru_list c' \<noteq> [] \<and> cache_map c' k = Some it \<and> get c' k = Some (v, c')))"
proof (intro conjI impI)
  assume "unat (capacity_bytes c) < length k + length v"
  then have "capacity_bytes c < string_size k + string_size v"
    using string_size_sum [OF assms] by (simp add: word_less_nat_alt)
  then show "put c k v = Some c" by (simp add: put_def)
next
  assume a: "cache_inv c \<and> length k + length v = unat (capacity_bytes c)"
  then have "\<not> string_size k + string_size v > capacity_bytes c"
    using string_size_sum [OF assms] by (simp add: word_less_nat_alt)
  from put_stores [OF _ this] a obtain c' it where
    c': "put c k v = Some c'" "cache_inv c'"
        "lru_list c' = (it, \<lparr>url = k, data = v\<rparr>) # tl (lru_list c')"
        "cache_map c' k = Some it" by auto
  from c'(2) have "cache_wf c'" by (simp add: cache_inv_def)
  from get_front [OF this c'(3)] have "get c' k = Some (v, c')" by simp
  with c' show "\<exists>c' it. put c k v = Some c' \<and> hd (lru_list c') = (it, \<lparr>url = k, data = v\<rparr>)
               \<and> lru_list c' \<noteq> [] \<and> cache_map c' k = Some it \<and> get c' k = Some (v, c')"
    by (metis list.sel(1) list.distinct(1))
qed

theorem put_capacity_boundary_witness:
  "length ''ab'' + length ''cdefg'' < (2::nat) ^ 64 \<and>
   unat (capacity_bytes (LRUCache_new 6)) < length ''ab'' + length ''cdefg'' \<and>
   put (LRUCache_new 6) ''ab'' ''cdefg'' = Some (LRUCache_new 6) \<and>
   cache_inv (LRUCache_new 6) \<and>
   length ''ab'' + length ''cdef'' = unat (capacity_bytes (LRUCache_new 6)) \<and>
   (\<exists>c' it. put (LRUCache_new 6) ''ab'' ''cdef'' = Some c'
      \<and> hd (lru_list c') = (it, \<lparr>url = ''ab'', data = ''cdef''\<rparr>)
      \<and> lru_list c' \<noteq> [] \<and> cache_map c' ''ab'' = Some it \<and> get c' ''ab'' = Some (''cdef'', c'))"
proof -
  have h1: "length ''ab'' + length ''cdefg'' < (2::nat) ^ 64" by simp
  have h2: "length ''ab'' + length ''cdef'' < (2::nat) ^ 64" by simp
  have h3: "unat (capacity_bytes (LRUCache_new 6)) < length ''ab'' + length ''cdefg''"
    by (simp add: LRUCache_new_def)
  have h4: "length ''ab'' + length ''cdef'' = unat (capacity_bytes (LRUCache_new 6))"
    by (simp add: LRUCache_new_def)
  have h5: "cache_inv (LRUCache_new 6)"
    by (simp add: cache_inv_def cache_wf_def LRUCache_new_def)
  from put_capacity_boundary [OF h1, of "LRUCache_new 6"] h3
  have "put (LRUCache_new 6) ''ab'' ''cdefg'' = Some (LRUCache_new 6)" by blast
  moreover from put_capacity_boundary [OF h2, of "LRUCache_new 6"] h4 h5
  have "\<exists>c' it. put (LRUCache_new 6) ''ab'' ''cdef'' = Some c'
      \<and> hd (lru_list c') = (it, \<lparr>url = ''ab'', data = ''cdef''\<rparr>)
      \<and> lru_list c' \<noteq> [] \<and> cache_map c' ''ab'' = Some it \<and> get c' ''ab'' = Some (''cdef'', c')"
    by blast
  ultimately show ?thesis using h1 h3 h4 h5 by blast
qed

text \<open>
  C5. In every cache state that satisfies the representation invariant, for a key \<open>k\<close>
  and values \<open>v1\<close>, \<open>v2\<close> that pass the size check of \<open>put\<close> (storable values):
  \<open>put(k, v1); put(k, v2)\<close> followed by \<open>get(k)\<close> returns \<open>v2\<close>. The second \<open>put\<close> first
  removes the old entry and subtracts its size \<open>len(k) + len(v1)\<close>, and only then adds
  \<open>len(k) + len(v2)\<close>: afterwards the list holds one entry with key \<open>k\<close>, at the front,
  with value \<open>v2\<close>, and \<open>current_size\<close> is \<open>len(k) + len(v2)\<close> plus the sizes of the other
  entries.
\<close>

theorem put_overwrite:
  assumes inv: "cache_inv c"
    and fits1: "\<not> string_size k + string_size v1 > capacity_bytes c"
    and fits2: "\<not> string_size k + string_size v2 > capacity_bytes c"
  shows "\<exists>c1 c1' c2 it.
           put c k v1 = Some c1 \<and> put c1 k v2 = Some c2 \<and> get c2 k = Some (v2, c2)
         \<and> remove_existing c1 k = Some c1'
         \<and> current_size c1' = current_size c1 - (string_size k + string_size v1)
         \<and> current_size c2 = current_size (evict c1' (string_size k + string_size v2))
                               + (string_size k + string_size v2)
         \<and> lru_list c2 = (it, \<lparr>url = k, data = v2\<rparr>) # tl (lru_list c2)
         \<and> k \<notin> (url \<circ> snd) ` set (tl (lru_list c2))
         \<and> current_size c2 = (string_size k + string_size v2)
                               + sum_list (map (entry_bytes \<circ> snd) (tl (lru_list c2)))"
proof -
  from put_stores [OF inv fits1] obtain c1 it1 where
    c1: "put c k v1 = Some c1" "cache_inv c1"
        "lru_list c1 = (it1, \<lparr>url = k, data = v1\<rparr>) # tl (lru_list c1)"
        "cache_map c1 k = Some it1" by auto
  from put_inv [OF inv, of k v1] c1(1) have cap1: "capacity_bytes c1 = capacity_bytes c" by auto
  from fits2 cap1 have fits2': "\<not> string_size k + string_size v2 > capacity_bytes c1" by simp
  from put_stores [OF c1(2) fits2'] obtain c1' c2 it where
    c2: "remove_existing c1 k = Some c1'" "put c1 k v2 = Some c2" "cache_inv c2"
        "lru_list c2 = (it, \<lparr>url = k, data = v2\<rparr>) # lru_list (evict c1' (string_size k + string_size v2))"
        "current_size c2 = current_size (evict c1' (string_size k + string_size v2))
                             + (string_size k + string_size v2)" by auto
  have d1: "deref (lru_list c1) it1 = Some \<lparr>url = k, data = v1\<rparr>"
    by (subst c1(3)) (simp add: deref_def)
  have r: "current_size c1' = current_size c1 - (string_size k + string_size v1)"
    using c2(1) c1(4) d1 by (auto simp: remove_existing_def entry_bytes_def)
  from c2(3) have wf2: "cache_wf c2" by (simp add: cache_inv_def)
  from c2(4) have l2: "lru_list c2 = (it, \<lparr>url = k, data = v2\<rparr>) # tl (lru_list c2)" by simp
  from get_front [OF wf2 l2] have g: "get c2 k = Some (v2, c2)" by simp
  from wf2 have "distinct (map (url \<circ> snd) (lru_list c2))" by (simp add: cache_wf_def)
  then have "distinct (map (url \<circ> snd) ((it, \<lparr>url = k, data = v2\<rparr>) # tl (lru_list c2)))"
    using l2 by simp
  then have n: "k \<notin> (url \<circ> snd) ` set (tl (lru_list c2))" by simp
  from wf2 have "current_size c2 = sum_list (map (entry_bytes \<circ> snd) (lru_list c2))"
    by (simp add: cache_wf_def)
  then have "current_size c2 =
      sum_list (map (entry_bytes \<circ> snd) ((it, \<lparr>url = k, data = v2\<rparr>) # tl (lru_list c2)))"
    using l2 by simp
  then have s: "current_size c2 = (string_size k + string_size v2)
                               + sum_list (map (entry_bytes \<circ> snd) (tl (lru_list c2)))"
    by (simp add: entry_bytes_def)
  from c1(1) c2(1,2,5) g r l2 n s show ?thesis by blast
qed

theorem put_overwrite_witness:
  "cache_inv example_cache \<and>
   \<not> string_size ''A'' + string_size ''xy'' > capacity_bytes example_cache \<and>
   \<not> string_size ''A'' + string_size ''z'' > capacity_bytes example_cache \<and>
   (\<exists>c1 c1' c2 it.
           put example_cache ''A'' ''xy'' = Some c1 \<and> put c1 ''A'' ''z'' = Some c2
         \<and> get c2 ''A'' = Some (''z'', c2)
         \<and> remove_existing c1 ''A'' = Some c1'
         \<and> current_size c1' = current_size c1 - (string_size ''A'' + string_size ''xy'')
         \<and> current_size c2 = current_size (evict c1' (string_size ''A'' + string_size ''z''))
                               + (string_size ''A'' + string_size ''z'')
         \<and> lru_list c2 = (it, \<lparr>url = ''A'', data = ''z''\<rparr>) # tl (lru_list c2)
         \<and> ''A'' \<notin> (url \<circ> snd) ` set (tl (lru_list c2))
         \<and> current_size c2 = (string_size ''A'' + string_size ''z'')
                               + sum_list (map (entry_bytes \<circ> snd) (tl (lru_list c2))))"
proof -
  have h1: "\<not> string_size ''A'' + string_size ''xy'' > capacity_bytes example_cache"
    by (simp add: example_cache_def string_size_def)
  have h2: "\<not> string_size ''A'' + string_size ''z'' > capacity_bytes example_cache"
    by (simp add: example_cache_def string_size_def)
  from put_overwrite [OF example_cache_inv h1 h2] example_cache_inv h1 h2
  show ?thesis by blast
qed

text \<open>
  C6. In every cache state that satisfies the representation invariant, a \<open>put(k, v)\<close>
  that passes the size check, with \<open>s = len(k) + len(v)\<close>, first removes the old entry
  of \<open>k\<close>, if any, and then runs \<open>j\<close> evictions, each of which removes the tail of the
  recency list: before each of them \<open>current_size + s > capacity_bytes\<close> held and the
  list was not empty, and after the last one this condition is false. The list after
  the \<open>put\<close> is the new entry followed by the first \<open>length - j\<close> entries of the list,
  in order; the evicted entries are the last \<open>j\<close>, that is, every evicted entry stood
  behind (was less recently used than) every surviving one, and their keys are neither
  in the index nor in the list afterwards.
\<close>

theorem eviction_from_tail:
  assumes inv: "cache_inv c" and fits: "\<not> string_size k + string_size v > capacity_bytes c"
  shows "\<exists>c1 c' j it.
      remove_existing c k = Some c1 \<and>
      lru_list c1 = filter (\<lambda>n. url (snd n) \<noteq> k) (lru_list c) \<and>
      put c k v = Some c' \<and>
      (\<forall>i<j. capacity_bytes c < current_size ((evict_one ^^ i) c1) + (string_size k + string_size v)
              \<and> lru_list ((evict_one ^^ i) c1) \<noteq> []) \<and>
      (\<not> capacity_bytes c < current_size ((evict_one ^^ j) c1) + (string_size k + string_size v)
         \<or> lru_list ((evict_one ^^ j) c1) = []) \<and>
      j \<le> length (lru_list c1) \<and>
      lru_list c' = (it, \<lparr>url = k, data = v\<rparr>) # take (length (lru_list c1) - j) (lru_list c1) \<and>
      (\<forall>x \<in> set (drop (length (lru_list c1) - j) (lru_list c1)).
          cache_map c' (url (snd x)) = None \<and> url (snd x) \<notin> (url \<circ> snd) ` set (lru_list c'))"
proof -
  let ?s = "string_size k + string_size v"
  from inv have wf: "cache_wf c" by (simp add: cache_inv_def)
  from remove_existing_wf [OF wf, of k] obtain c1 where
    c1: "remove_existing c k = Some c1" "cache_wf c1" "capacity_bytes c1 = capacity_bytes c"
        "lru_list c1 = filter (\<lambda>n. url (snd n) \<noteq> k) (lru_list c)" by blast
  from put_stores [OF inv fits] c1(1) obtain c' it where
    c': "put c k v = Some c'" "cache_inv c'"
        "lru_list c' = (it, \<lparr>url = k, data = v\<rparr>) # lru_list (evict c1 ?s)" by auto
  from evict_iter [of c1 ?s] obtain j where
    j: "evict c1 ?s = (evict_one ^^ j) c1"
       "\<forall>i<j. capacity_bytes ((evict_one ^^ i) c1) < current_size ((evict_one ^^ i) c1) + ?s
               \<and> lru_list ((evict_one ^^ i) c1) \<noteq> []"
       "\<not> capacity_bytes ((evict_one ^^ j) c1) < current_size ((evict_one ^^ j) c1) + ?s
          \<or> lru_list ((evict_one ^^ j) c1) = []" by blast
  let ?l = "lru_list c1"
  let ?n = "length ?l - j"
  have jle: "j \<le> length ?l"
  proof (rule ccontr)
    assume "\<not> j \<le> length ?l"
    then have "length ?l < j" by simp
    with j(2) have "lru_list ((evict_one ^^ length ?l) c1) \<noteq> []" by blast
    then show False by (simp add: evict_one_iter_list)
  qed
  have l': "lru_list c' = (it, \<lparr>url = k, data = v\<rparr>) # take ?n ?l"
    using c'(3) j(1) by (simp add: evict_one_iter_list)
  have gone: "\<forall>x \<in> set (drop ?n ?l).
          cache_map c' (url (snd x)) = None \<and> url (snd x) \<notin> (url \<circ> snd) ` set (lru_list c')"
  proof
    fix x assume x: "x \<in> set (drop ?n ?l)"
    from c1(2) have "distinct (map (url \<circ> snd) (take ?n ?l @ drop ?n ?l))"
      by (simp add: cache_wf_def)
    then have "(url \<circ> snd) ` set (take ?n ?l) \<inter> (url \<circ> snd) ` set (drop ?n ?l) = {}"
      by (simp only: map_append distinct_append set_map)
    with x have a: "url (snd x) \<notin> (url \<circ> snd) ` set (take ?n ?l)" by auto
    from x have "x \<in> set ?l" by (rule in_set_dropD)
    then have b: "url (snd x) \<noteq> k" by (simp add: c1(4))
    from a b l' have n: "url (snd x) \<notin> (url \<circ> snd) ` set (lru_list c')" by simp
    from c'(2) have "dom (cache_map c') = (url \<circ> snd) ` set (lru_list c')"
      by (simp add: cache_inv_def cache_wf_def)
    with n have "cache_map c' (url (snd x)) = None" by (metis domIff)
    with n show "cache_map c' (url (snd x)) = None
        \<and> url (snd x) \<notin> (url \<circ> snd) ` set (lru_list c')" by simp
  qed
  from j(2,3) have j2: "\<forall>i<j. capacity_bytes c < current_size ((evict_one ^^ i) c1) + ?s
              \<and> lru_list ((evict_one ^^ i) c1) \<noteq> []"
    and j3: "\<not> capacity_bytes c < current_size ((evict_one ^^ j) c1) + ?s
         \<or> lru_list ((evict_one ^^ j) c1) = []"
    by (simp_all add: evict_one_iter_capacity c1(3))
  from c1(1,4) c'(1) j2 j3 jle l' gone show ?thesis by blast
qed

theorem eviction_from_tail_witness:
  "cache_inv example_cache \<and>
   \<not> string_size ''C'' + string_size ''cccc'' > capacity_bytes example_cache \<and>
   (\<exists>c1 c' j it.
      remove_existing example_cache ''C'' = Some c1 \<and>
      lru_list c1 = filter (\<lambda>n. url (snd n) \<noteq> ''C'') (lru_list example_cache) \<and>
      put example_cache ''C'' ''cccc'' = Some c' \<and>
      (\<forall>i<j. capacity_bytes example_cache
                < current_size ((evict_one ^^ i) c1) + (string_size ''C'' + string_size ''cccc'')
              \<and> lru_list ((evict_one ^^ i) c1) \<noteq> []) \<and>
      (\<not> capacity_bytes example_cache
            < current_size ((evict_one ^^ j) c1) + (string_size ''C'' + string_size ''cccc'')
         \<or> lru_list ((evict_one ^^ j) c1) = []) \<and>
      j \<le> length (lru_list c1) \<and>
      lru_list c' = (it, \<lparr>url = ''C'', data = ''cccc''\<rparr>)
                      # take (length (lru_list c1) - j) (lru_list c1) \<and>
      (\<forall>x \<in> set (drop (length (lru_list c1) - j) (lru_list c1)).
          cache_map c' (url (snd x)) = None \<and> url (snd x) \<notin> (url \<circ> snd) ` set (lru_list c')))"
proof -
  have h: "\<not> string_size ''C'' + string_size ''cccc'' > capacity_bytes example_cache"
    by (simp add: example_cache_def string_size_def)
  from eviction_from_tail [OF example_cache_inv h] example_cache_inv h
  show ?thesis by blast
qed

text \<open>
  C7. In every cache state that satisfies the representation invariant: a \<open>get(k)\<close> that
  hits leaves the entry with key \<open>k\<close> at the front of the recency list and returns its
  value; a second \<open>get(k)\<close> returns the same value and leaves the cache as the first one
  left it (so \<open>k\<close> stays at the front), and the nodes of the list, the index and
  \<open>current_size\<close> are those of the cache before the first \<open>get\<close>. A \<open>put(k, v)\<close> that
  passes the size check leaves the entry \<open>(k, v)\<close> at the front.
\<close>

theorem front_after_access:
  assumes inv: "cache_inv c"
  shows "(\<exists>r c'. get c k = Some (r, c') \<and> get c' k = Some (r, c')
              \<and> set (lru_list c') = set (lru_list c) \<and> cache_map c' = cache_map c
              \<and> current_size c' = current_size c
              \<and> (cache_map c k \<noteq> None \<longrightarrow>
                    lru_list c' \<noteq> [] \<and> url (snd (hd (lru_list c'))) = k
                    \<and> data (snd (hd (lru_list c'))) = r))
       \<and> (\<not> string_size k + string_size v > capacity_bytes c \<longrightarrow>
            (\<exists>c' it. put c k v = Some c' \<and> lru_list c' \<noteq> []
               \<and> hd (lru_list c') = (it, \<lparr>url = k, data = v\<rparr>)))"
proof (intro conjI impI)
  from inv have wf: "cache_wf c" by (simp add: cache_inv_def)
  show "\<exists>r c'. get c k = Some (r, c') \<and> get c' k = Some (r, c')
              \<and> set (lru_list c') = set (lru_list c) \<and> cache_map c' = cache_map c
              \<and> current_size c' = current_size c
              \<and> (cache_map c k \<noteq> None \<longrightarrow>
                    lru_list c' \<noteq> [] \<and> url (snd (hd (lru_list c'))) = k
                    \<and> data (snd (hd (lru_list c'))) = r)"
  proof (cases "cache_map c k")
    case None
    then show ?thesis by (simp add: get_def)
  next
    case (Some it)
    from get_hit [OF wf Some] obtain e c' where
      g: "get c k = Some (data e, c')" "url e = k" "cache_wf c'"
         "lru_list c' = (it, e) # list_erase (lru_list c) it" by blast
    from get_front [OF g(3,4)] g(2) have g2: "get c' k = Some (data e, c')" by simp
    from get_wf [OF wf, of k] g(1) have
      "set (lru_list c') = set (lru_list c) \<and> cache_map c' = cache_map c
         \<and> current_size c' = current_size c" by auto
    with g g2 show ?thesis by simp
  qed
next
  assume "\<not> string_size k + string_size v > capacity_bytes c"
  from put_stores [OF inv this] show "\<exists>c' it. put c k v = Some c' \<and> lru_list c' \<noteq> []
               \<and> hd (lru_list c') = (it, \<lparr>url = k, data = v\<rparr>)" by auto
qed

theorem front_after_access_witness:
  "cache_inv example_cache \<and> cache_map example_cache ''A'' \<noteq> None \<and>
   \<not> string_size ''C'' + string_size ''cccc'' > capacity_bytes example_cache \<and>
   (\<exists>r c'. get example_cache ''A'' = Some (r, c') \<and> get c' ''A'' = Some (r, c')
       \<and> set (lru_list c') = set (lru_list example_cache)
       \<and> cache_map c' = cache_map example_cache
       \<and> current_size c' = current_size example_cache
       \<and> lru_list c' \<noteq> [] \<and> url (snd (hd (lru_list c'))) = ''A''
       \<and> data (snd (hd (lru_list c'))) = r) \<and>
   (\<exists>c' it. put example_cache ''C'' ''cccc'' = Some c' \<and> lru_list c' \<noteq> []
       \<and> hd (lru_list c') = (it, \<lparr>url = ''C'', data = ''cccc''\<rparr>))"
proof -
  have h1: "cache_map example_cache ''A'' \<noteq> None" by (simp add: example_cache_def)
  have h2: "\<not> string_size ''C'' + string_size ''cccc'' > capacity_bytes example_cache"
    by (simp add: example_cache_def string_size_def)
  from front_after_access [OF example_cache_inv, of "''A''"]
    front_after_access [OF example_cache_inv, of "''C''" "''cccc''"]
    example_cache_inv h1 h2
  show ?thesis by blast
qed

section \<open>Claims about the request handler and the worker\<close>

text \<open>
  C8. For every parsed request, the outbound request that \<^verbatim>\<open>handle_request\<close> assembles is
  the request line \<open>METHOD SP PATH SP VERSION CRLF\<close>, followed by the client's headers in
  their order, each as \<open>key: value CRLF\<close>, without every header whose key equals \<open>Host\<close> or
  \<open>Connection\<close> case-insensitively, followed by \<open>Host: <parsed-host> CRLF\<close>,
  \<open>Connection: close CRLF\<close> and the blank line \<open>CRLF\<close>.
\<close>

theorem build_request_spec: "build_request request = outbound_request_spec request"
  by (simp add: build_request_def outbound_request_spec_def forward_headers_eq Let_def)

theorem build_request_spec_witness:
  "build_request example_request = outbound_request_spec example_request \<and>
   build_request example_request =
     ''GET /a HTTP/1.0'' @ CRLF @ ''Accept: *'' @ CRLF @ ''Host: h.test'' @ CRLF
       @ ''Connection: close'' @ CRLF @ CRLF"
  using build_request_spec [of example_request]
  by (simp add: build_request_def example_request_def tolower_def char_of_eq_iff Let_def)

text \<open>
  C9. Let the client's socket deliver the non-empty chunks \<open>cs\<close>, followed by \<open>rest\<close>,
  such that before the last chunk of \<open>cs\<close> the accumulated bytes were fewer than
  \<^verbatim>\<open>MAX_HEADER_SIZE\<close> = 65536 and held no \<open>CRLF CRLF\<close>. Then the worker
  \<^item> proceeds to the cache lookup with the accumulated bytes as soon as they contain
    \<open>CRLF CRLF\<close>, whatever their number (so also when they are exactly 65536);
  \<^item> responds 400 and leaves the cache alone if the accumulated bytes have reached
    \<^verbatim>\<open>MAX_HEADER_SIZE\<close> without the terminator;
  \<^item> responds 400 if the peer closes (or \<^verbatim>\<open>recv\<close> fails) after more than zero bytes without
    the terminator;
  \<^item> sends nothing if the peer closes (or \<^verbatim>\<open>recv\<close> fails) before any byte.
  By \<open>recv_cases_exhaustive\<close> every input of the socket splits into such \<open>cs\<close> and \<open>rest\<close>
  and falls under one of the four cases.
\<close>

theorem header_reception:
  assumes chunks: "\<forall>b\<in>set cs. b \<noteq> []"
    and before: "\<forall>m<length cs. length (concat (take m cs)) < MAX_HEADER_SIZE
                   \<and> string_find (concat (take m cs)) (CRLF @ CRLF) = None"
    and env: "client_recv env = map Bytes cs @ rest"
  shows "(cs \<noteq> [] \<and> string_find (concat cs) (CRLF @ CRLF) \<noteq> None \<longrightarrow>
            thread_fn c env = lookup_and_dispatch c env (concat cs))
       \<and> (string_find (concat cs) (CRLF @ CRLF) = None \<and> MAX_HEADER_SIZE \<le> length (concat cs) \<longrightarrow>
            thread_fn c env =
              Some \<lparr>client_outs = [ErrorMessage 400], remote_request = None, cache_after = c\<rparr>)
       \<and> (string_find (concat cs) (CRLF @ CRLF) = None \<and> 0 < length (concat cs)
            \<and> (rest = [] \<or> (\<exists>r. rest = Bytes [] # r) \<or> (\<exists>r. rest = RecvError # r)) \<longrightarrow>
            thread_fn c env =
              Some \<lparr>client_outs = [ErrorMessage 400], remote_request = None, cache_after = c\<rparr>)
       \<and> (cs = [] \<and> (rest = [] \<or> (\<exists>r. rest = Bytes [] # r) \<or> (\<exists>r. rest = RecvError # r)) \<longrightarrow>
            thread_fn c env =
              Some \<lparr>client_outs = [], remote_request = None, cache_after = c\<rparr>)"
proof -
  from before have before': "\<forall>m<length cs. length ([] @ concat (take m cs)) < MAX_HEADER_SIZE
                   \<and> string_find ([] @ concat (take m cs)) (CRLF @ CRLF) = None" by simp
  have r: "recv_headers (client_recv env) [] 0 =
           (if cs \<noteq> [] \<and> string_find (concat cs) (CRLF @ CRLF) \<noteq> None
            then (concat cs, length (concat cs), True)
            else recv_headers rest (concat cs) (length (concat cs)))"
    using recv_headers_chunks [OF chunks before', of rest] env by simp
  show ?thesis
  proof (intro conjI impI)
    assume "cs \<noteq> [] \<and> string_find (concat cs) (CRLF @ CRLF) \<noteq> None"
    with r show "thread_fn c env = lookup_and_dispatch c env (concat cs)"
      by (simp add: thread_fn_def)
  next
    assume a: "string_find (concat cs) (CRLF @ CRLF) = None \<and> MAX_HEADER_SIZE \<le> length (concat cs)"
    then have "0 < length (concat cs)" unfolding MAX_HEADER_SIZE_def by linarith
    with a r show "thread_fn c env =
        Some \<lparr>client_outs = [ErrorMessage 400], remote_request = None, cache_after = c\<rparr>"
      by (simp add: thread_fn_def recv_headers_full)
  next
    assume a: "string_find (concat cs) (CRLF @ CRLF) = None \<and> 0 < length (concat cs)
            \<and> (rest = [] \<or> (\<exists>r. rest = Bytes [] # r) \<or> (\<exists>r. rest = RecvError # r))"
    then have "recv_headers rest (concat cs) (length (concat cs))
                 = (concat cs, length (concat cs), False)"
      by (intro recv_headers_closed) blast
    with a r show "thread_fn c env =
        Some \<lparr>client_outs = [ErrorMessage 400], remote_request = None, cache_after = c\<rparr>"
      by (simp add: thread_fn_def)
  next
    assume a: "cs = [] \<and> (rest = [] \<or> (\<exists>r. rest = Bytes [] # r) \<or> (\<exists>r. rest = RecvError # r))"
    then have "recv_headers rest [] 0 = ([], 0, False)"
      by (intro recv_headers_closed) blast
    with a r show "thread_fn c env =
        Some \<lparr>client_outs = [], remote_request = None, cache_after = c\<rparr>"
      by (simp add: thread_fn_def)
  qed
qed

theorem header_reception_witness:
  "thread_fn (LRUCache_new 100) (example_env (map Bytes [''GET http://h.test/a HTTP/1.0'' @ CRLF, CRLF] @ []))
     = lookup_and_dispatch (LRUCache_new 100)
         (example_env (map Bytes [''GET http://h.test/a HTTP/1.0'' @ CRLF, CRLF] @ []))
         (concat [''GET http://h.test/a HTTP/1.0'' @ CRLF, CRLF])
   \<and> length (concat (replicate 15 block_a @ [last_block])) = 65536
   \<and> thread_fn (LRUCache_new 100) (example_env (map Bytes (replicate 15 block_a @ [last_block]) @ []))
     = lookup_and_dispatch (LRUCache_new 100)
         (example_env (map Bytes (replicate 15 block_a @ [last_block]) @ []))
         (concat (replicate 15 block_a @ [last_block]))
   \<and> thread_fn (LRUCache_new 100)
        (example_env (map Bytes (replicate 16 block_a) @ [Bytes (CRLF @ CRLF)]))
     = Some \<lparr>client_outs = [ErrorMessage 400], remote_request = None,
             cache_after = LRUCache_new 100\<rparr>
   \<and> thread_fn (LRUCache_new 100) (example_env (map Bytes [''GET''] @ []))
     = Some \<lparr>client_outs = [ErrorMessage 400], remote_request = None,
             cache_after = LRUCache_new 100\<rparr>
   \<and> thread_fn (LRUCache_new 100) (example_env (map Bytes [] @ []))
     = Some \<lparr>client_outs = [], remote_request = None, cache_after = LRUCache_new 100\<rparr>"
proof -
  let ?c = "LRUCache_new 100"
  have e: "\<And>evs. client_recv (example_env evs) = evs" by (simp add: example_env_def)
  have 1: "thread_fn ?c (example_env (map Bytes [''GET http://h.test/a HTTP/1.0'' @ CRLF, CRLF] @ []))
     = lookup_and_dispatch ?c (example_env (map Bytes [''GET http://h.test/a HTTP/1.0'' @ CRLF, CRLF] @ []))
         (concat [''GET http://h.test/a HTTP/1.0'' @ CRLF, CRLF])"
  proof -
    have a: "\<forall>b\<in>set [''GET http://h.test/a HTTP/1.0'' @ CRLF, CRLF]. b \<noteq> []" by (simp add: CRLF_def)
    have b: "\<forall>m<length [''GET http://h.test/a HTTP/1.0'' @ CRLF, CRLF].
        length (concat (take m [''GET http://h.test/a HTTP/1.0'' @ CRLF, CRLF])) < MAX_HEADER_SIZE
        \<and> string_find (concat (take m [''GET http://h.test/a HTTP/1.0'' @ CRLF, CRLF])) (CRLF @ CRLF) = None"
      by (auto simp: less_Suc_eq CRLF_def MAX_HEADER_SIZE_def)
    have c: "[''GET http://h.test/a HTTP/1.0'' @ CRLF, CRLF] \<noteq> []
        \<and> string_find (concat [''GET http://h.test/a HTTP/1.0'' @ CRLF, CRLF]) (CRLF @ CRLF) \<noteq> None"
      by (simp add: CRLF_def)
    from header_reception [OF a b e, where c = ?c] c show ?thesis by blast
  qed
  have 2: "thread_fn ?c (example_env (map Bytes (replicate 15 block_a @ [last_block]) @ []))
     = lookup_and_dispatch ?c (example_env (map Bytes (replicate 15 block_a @ [last_block]) @ []))
         (concat (replicate 15 block_a @ [last_block]))"
    using header_reception [OF nonempty_blocks(2) boundary_before e, where c = ?c] boundary_full
    by blast
  have 3: "thread_fn ?c (example_env (map Bytes (replicate 16 block_a) @ [Bytes (CRLF @ CRLF)]))
     = Some \<lparr>client_outs = [ErrorMessage 400], remote_request = None, cache_after = ?c\<rparr>"
    using header_reception [OF nonempty_blocks(1) blocks_before e, where c = ?c] blocks_full
    by blast
  have 4: "thread_fn ?c (example_env (map Bytes [''GET''] @ []))
     = Some \<lparr>client_outs = [ErrorMessage 400], remote_request = None, cache_after = ?c\<rparr>"
  proof -
    have a: "\<forall>b\<in>set [''GET'']. b \<noteq> []" by simp
    have b: "\<forall>m<length [''GET'']. length (concat (take m [''GET''])) < MAX_HEADER_SIZE
        \<and> string_find (concat (take m [''GET''])) (CRLF @ CRLF) = None"
      by (simp add: CRLF_def MAX_HEADER_SIZE_def)
    have c: "string_find (concat [''GET'']) (CRLF @ CRLF) = None \<and> 0 < length (concat [''GET''])
        \<and> ([] = [] \<or> (\<exists>r. [] = Bytes [] # r) \<or> (\<exists>r. [] = RecvError # r))"
      by (simp add: CRLF_def)
    from header_reception [OF a b e, where c = ?c and rest = "[]"] c show ?thesis by blast
  qed
  have 5: "thread_fn ?c (example_env (map Bytes [] @ []))
     = Some \<lparr>client_outs = [], remote_request = None, cache_after = ?c\<rparr>"
  proof -
    have a: "\<forall>b\<in>set ([] :: string list). b \<noteq> []" by simp
    have b: "\<forall>m<length ([] :: string list).
        length (concat (take m ([] :: string list))) < MAX_HEADER_SIZE
        \<and> string_find (concat (take m ([] :: string list))) (CRLF @ CRLF) = None"
      by simp
    from header_reception [OF a b e, where c = ?c and rest = "[]"] show ?thesis by blast
  qed
  from 1 boundary_length 2 3 4 5 show ?thesis by blast
qed

text \<open>
  C1, as the code has it. Once \<^verbatim>\<open>handle_request\<close> has connected and sent the request, it
  inserts the accumulated response bytes into the cache under the request key when the
  relay loop ends, however it ends: at upstream EOF, at an upstream read error or at a
  failed \<^verbatim>\<open>send_all\<close> to the client. The accumulated bytes are those of the \<open>n\<close> chunks
  received and forwarded before the loop ended; they are stored if they pass the size
  check of \<open>put\<close>.
\<close>

theorem relay_always_inserts:
  assumes inv: "cache_inv c" and conn: "connect_ok server" and sent: "request_sent server"
  shows "\<exists>n temp c' outs.
           n \<le> length (responses server)
         \<and> temp = concat (map chunk_bytes (take n (responses server)))
         \<and> (\<forall>j<n. \<exists>b. responses server ! j = Bytes b \<and> b \<noteq> [] \<and> send_ok j)
         \<and> (n = length (responses server) \<or> responses server ! n = RecvError
              \<or> responses server ! n = Bytes []
              \<or> (\<exists>b. responses server ! n = Bytes b \<and> \<not> send_ok n))
         \<and> put c u temp = Some c'
         \<and> handle_request c server send_ok request u =
             Some \<lparr>ret = 0, to_client = outs, to_remote = Some (build_request request), cache = c'\<rparr>
         \<and> (\<not> string_size u + string_size temp > capacity_bytes c \<longrightarrow>
               cached_value c' u = Some temp)"
  using handle_request_relay [OF inv conn sent, of send_ok u request] by blast

theorem relay_always_inserts_witness:
  "cache_inv (LRUCache_new 100) \<and> connect_ok example_server_error
   \<and> request_sent example_server_error
   \<and> (\<exists>n temp c' outs.
           n \<le> length (responses example_server_error)
         \<and> temp = concat (map chunk_bytes (take n (responses example_server_error)))
         \<and> (\<forall>j<n. \<exists>b. responses example_server_error ! j = Bytes b \<and> b \<noteq> [] \<and> always_ok j)
         \<and> (n = length (responses example_server_error)
              \<or> responses example_server_error ! n = RecvError
              \<or> responses example_server_error ! n = Bytes []
              \<or> (\<exists>b. responses example_server_error ! n = Bytes b \<and> \<not> always_ok n))
         \<and> put (LRUCache_new 100) ''k'' temp = Some c'
         \<and> handle_request (LRUCache_new 100) example_server_error always_ok example_request ''k'' =
             Some \<lparr>ret = 0, to_client = outs, to_remote = Some (build_request example_request),
                   cache = c'\<rparr>
         \<and> (\<not> string_size ''k'' + string_size temp > capacity_bytes (LRUCache_new 100) \<longrightarrow>
               cached_value c' ''k'' = Some temp))"
proof -
  have h1: "connect_ok example_server_error" by (simp add: example_server_error_def)
  have h2: "request_sent example_server_error" by (simp add: example_server_error_def)
  from relay_always_inserts [OF new_inv [of 100] h1 h2, where send_ok = always_ok
      and u = "''k''" and request = example_request] new_inv [of 100] h1 h2
  show ?thesis by blast
qed

text \<open>
  C1 as stated fails: the remote server delivers \<open>ab\<close> and then the \<^verbatim>\<open>recv\<close> fails; the two
  bytes are cached under the request key all the same.
\<close>

theorem upstream_error_still_cached:
  "responses example_server_error = [Bytes ''ab'', RecvError]
   \<and> cached_value (LRUCache_new 100) example_raw = None
   \<and> handle_request (LRUCache_new 100) example_server_error always_ok example_request example_raw
     = Some \<lparr>ret = 0, to_client = [Sent ''ab''],
             to_remote = Some (build_request example_request),
             cache = \<lparr>capacity_bytes = 100, current_size = 80,
                      lru_list = [(1, \<lparr>url = example_raw, data = ''ab''\<rparr>)],
                      cache_map = [example_raw \<mapsto> 1]\<rparr>\<rparr>
   \<and> cached_value \<lparr>capacity_bytes = 100, current_size = 80,
                    lru_list = [(1, \<lparr>url = example_raw, data = ''ab''\<rparr>)],
                    cache_map = [example_raw \<mapsto> 1]\<rparr> example_raw = Some ''ab''"
  by (simp add: handle_request_def example_server_error_def always_ok_def example_raw_def
      CRLF_def LRUCache_new_def put_def remove_existing_def evict.simps new_node_def
      string_size_def cached_value_def deref_def Let_def)

text \<open>
  C2, as the code has it. When the header loop ends with a complete header, the key
  \<^verbatim>\<open>raw_req\<close> is the concatenation of all the chunks received up to and including the first
  one that completes \<open>CRLF CRLF\<close>: it begins with the request up to and including the
  terminator and goes on with the bytes that followed the terminator in that chunk. The
  lookup and the insertion both use this key: a non-empty value stored under it is sent
  to the client, and after a miss on it, a parsed \<open>GET\<close> and a relay, the relayed bytes
  are stored under it (if they pass the size check of \<open>put\<close>).
\<close>

theorem cache_key_is_raw_request:
  assumes inv: "cache_inv c"
    and complete: "recv_headers (client_recv env) [] 0 = (raw, tot, True)"
  shows "(\<exists>n pre tail. 0 < n \<and> n \<le> length (client_recv env)
            \<and> raw = concat (map chunk_bytes (take n (client_recv env)))
            \<and> string_find (concat (map chunk_bytes (take (n - 1) (client_recv env)))) (CRLF @ CRLF)
                = None
            \<and> raw = pre @ CRLF @ CRLF @ tail \<and> header_prefix raw = pre @ CRLF @ CRLF)
       \<and> (\<forall>v. cached_value c raw = Some v \<and> v \<noteq> [] \<longrightarrow>
            (\<exists>c1. thread_fn c env =
               Some \<lparr>client_outs = [Sent v], remote_request = None, cache_after = c1\<rparr>))
       \<and> (\<forall>request.
            (cached_value c raw = None \<or> cached_value c raw = Some [])
            \<and> parse env raw = Some request \<and> method' request = ''GET''
            \<and> connect_ok (remote env) \<and> request_sent (remote env) \<longrightarrow>
            (\<exists>r temp. thread_fn c env = Some r
               \<and> temp = fst (relay_loop (responses (remote env)) (client_send_ok env) 0 [] [])
               \<and> remote_request r = Some (build_request request)
               \<and> (\<not> string_size raw + string_size temp > capacity_bytes c \<longrightarrow>
                     cached_value (cache_after r) raw = Some temp)))"
proof (intro conjI allI impI)
  have e: "string_find [] (CRLF @ CRLF) = None" by (simp add: CRLF_def)
  from recv_headers_complete [OF e complete] obtain n where n: "0 < n" "n \<le> length (client_recv env)"
    "raw = concat (map chunk_bytes (take n (client_recv env)))"
    "string_find raw (CRLF @ CRLF) \<noteq> None"
    "string_find (concat (map chunk_bytes (take (n - 1) (client_recv env)))) (CRLF @ CRLF) = None"
    by auto
  from header_prefix_split [OF n(4)] obtain pre tail where
    "raw = pre @ CRLF @ CRLF @ tail" "header_prefix raw = pre @ CRLF @ CRLF" by blast
  with n show "\<exists>n pre tail. 0 < n \<and> n \<le> length (client_recv env)
            \<and> raw = concat (map chunk_bytes (take n (client_recv env)))
            \<and> string_find (concat (map chunk_bytes (take (n - 1) (client_recv env)))) (CRLF @ CRLF)
                = None
            \<and> raw = pre @ CRLF @ CRLF @ tail \<and> header_prefix raw = pre @ CRLF @ CRLF"
    by blast
next
  fix v assume "cached_value c raw = Some v \<and> v \<noteq> []"
  with dispatch_hit [OF inv, of raw v env] complete
  show "\<exists>c1. thread_fn c env =
               Some \<lparr>client_outs = [Sent v], remote_request = None, cache_after = c1\<rparr>"
    by (simp add: thread_fn_def)
next
  fix request
  assume a: "(cached_value c raw = None \<or> cached_value c raw = Some [])
            \<and> parse env raw = Some request \<and> method' request = ''GET''
            \<and> connect_ok (remote env) \<and> request_sent (remote env)"
  have "thread_fn c env = lookup_and_dispatch c env raw"
    using complete by (simp add: thread_fn_def)
  with dispatch_miss [OF inv, of raw env request] a
  show "\<exists>r temp. thread_fn c env = Some r
               \<and> temp = fst (relay_loop (responses (remote env)) (client_send_ok env) 0 [] [])
               \<and> remote_request r = Some (build_request request)
               \<and> (\<not> string_size raw + string_size temp > capacity_bytes c \<longrightarrow>
                     cached_value (cache_after r) raw = Some temp)"
    by simp
qed

theorem cache_key_is_raw_request_witness:
  "cache_inv (LRUCache_new 100)
   \<and> recv_headers (client_recv (example_env [Bytes example_raw])) [] 0 = (example_raw, 78, True)
   \<and> (\<exists>n pre tail. 0 < n \<and> n \<le> length (client_recv (example_env [Bytes example_raw]))
        \<and> example_raw = concat (map chunk_bytes (take n (client_recv (example_env [Bytes example_raw]))))
        \<and> string_find (concat (map chunk_bytes
              (take (n - 1) (client_recv (example_env [Bytes example_raw]))))) (CRLF @ CRLF) = None
        \<and> example_raw = pre @ CRLF @ CRLF @ tail \<and> header_prefix example_raw = pre @ CRLF @ CRLF)
   \<and> cached_value (LRUCache_new 100) example_raw = None
   \<and> parse (example_env [Bytes example_raw]) example_raw = Some example_request
   \<and> method' example_request = ''GET''
   \<and> connect_ok (remote (example_env [Bytes example_raw]))
   \<and> request_sent (remote (example_env [Bytes example_raw]))
   \<and> (\<exists>r. thread_fn (LRUCache_new 100) (example_env [Bytes example_raw]) = Some r
        \<and> remote_request r = Some (build_request example_request)
        \<and> cached_value (cache_after r) example_raw = Some ''ok'')
   \<and> cache_inv example_cache_hit
   \<and> cached_value example_cache_hit example_raw = Some ''ok''
   \<and> (\<exists>c1. thread_fn example_cache_hit (example_env [Bytes example_raw]) =
         Some \<lparr>client_outs = [Sent ''ok''], remote_request = None, cache_after = c1\<rparr>)"
proof -
  let ?env = "example_env [Bytes example_raw]"
  have m: "cached_value (LRUCache_new 100) example_raw = None"
    by (simp add: cached_value_def LRUCache_new_def)
  have p: "parse ?env example_raw = Some example_request"
    by (simp add: example_env_def example_parse_def)
  have g: "method' example_request = ''GET''" by (rule example_request_method)
  have c: "connect_ok (remote ?env)" "request_sent (remote ?env)"
    by (simp_all add: example_env_def)
  have t: "fst (relay_loop (responses (remote ?env)) (client_send_ok ?env) 0 [] []) = ''ok''"
    by (simp add: example_env_def always_ok_def)
  have f: "\<not> string_size example_raw + string_size ''ok'' > capacity_bytes (LRUCache_new 100)"
    by (simp add: example_raw_def CRLF_def LRUCache_new_def string_size_def)
  have hv: "cached_value example_cache_hit example_raw = Some ''ok''"
    by (simp add: cached_value_def example_cache_hit_def deref_def)
  note miss = cache_key_is_raw_request [OF new_inv [of 100] example_recv]
  note hit = cache_key_is_raw_request [OF example_cache_hit_inv example_recv]
  from miss have 1: "\<exists>n pre tail. 0 < n \<and> n \<le> length (client_recv ?env)
        \<and> example_raw = concat (map chunk_bytes (take n (client_recv ?env)))
        \<and> string_find (concat (map chunk_bytes (take (n - 1) (client_recv ?env)))) (CRLF @ CRLF)
            = None
        \<and> example_raw = pre @ CRLF @ CRLF @ tail \<and> header_prefix example_raw = pre @ CRLF @ CRLF"
    by blast
  from miss m p g c obtain r temp where r: "thread_fn (LRUCache_new 100) ?env = Some r"
      "temp = fst (relay_loop (responses (remote ?env)) (client_send_ok ?env) 0 [] [])"
      "remote_request r = Some (build_request example_request)"
      "\<not> string_size example_raw + string_size temp > capacity_bytes (LRUCache_new 100) \<longrightarrow>
         cached_value (cache_after r) example_raw = Some temp"
    by blast
  from r(2) t have "temp = ''ok''" by simp
  with r f have 2: "\<exists>r. thread_fn (LRUCache_new 100) ?env = Some r
        \<and> remote_request r = Some (build_request example_request)
        \<and> cached_value (cache_after r) example_raw = Some ''ok''" by auto
  from hit hv have 3: "\<exists>c1. thread_fn example_cache_hit ?env =
         Some \<lparr>client_outs = [Sent ''ok''], remote_request = None, cache_after = c1\<rparr>"
    by blast
  from new_inv [of 100] example_recv 1 m p g c 2 example_cache_hit_inv hv 3
  show ?thesis by blast
qed

text \<open>
  C2 as stated fails: the client sends the request line, the headers, the blank line and
  the two bytes \<open>XY\<close> in one chunk, and the parser accepts the request; the response is
  cached under the key that ends in \<open>XY\<close>, and nothing is cached under the request up to
  and including the terminator.
\<close>

theorem key_includes_body_bytes:
  "example_raw =
     ''GET http://h.test/a HTTP/1.0'' @ CRLF @ ''HOST: x'' @ CRLF @ ''Accept: *'' @ CRLF
     @ ''connection: keep-alive'' @ CRLF @ CRLF @ ''XY''
   \<and> header_prefix example_raw =
     ''GET http://h.test/a HTTP/1.0'' @ CRLF @ ''HOST: x'' @ CRLF @ ''Accept: *'' @ CRLF
     @ ''connection: keep-alive'' @ CRLF @ CRLF
   \<and> header_prefix example_raw \<noteq> example_raw
   \<and> thread_fn (LRUCache_new 100) (example_env [Bytes example_raw])
     = Some \<lparr>client_outs = [Sent ''ok''],
             remote_request = Some (build_request example_request),
             cache_after = example_cache_hit\<rparr>
   \<and> cached_value example_cache_hit example_raw = Some ''ok''
   \<and> cached_value example_cache_hit (header_prefix example_raw) = None"
  by (simp add: thread_fn_def lookup_and_dispatch_def get_def handle_request_def put_def
      remove_existing_def evict.simps new_node_def string_size_def cached_value_def deref_def
      LRUCache_new_def example_env_def example_raw_def example_parse_def example_request_method
      always_ok_def example_cache_hit_def header_prefix_def CRLF_def MAX_HEADER_SIZE_def Let_def)

text \<open>
  C10. \<open>get\<close> returns the empty string for a key that is not in the index, and it returns
  the empty string too for a key stored with the empty value, which \<open>put\<close> does store:
  the two cannot be told apart by the caller. The worker takes the empty result for a
  miss: with the empty value stored under the request, a parsed \<open>GET\<close> is sent to the
  remote server again. And \<^verbatim>\<open>handle_request\<close> does insert the empty response of a remote
  server that closes before sending any data.
\<close>

theorem empty_value_is_a_miss:
  assumes inv: "cache_inv c"
  shows "(cache_map c k = None \<longrightarrow> get c k = Some ([], c))
       \<and> (\<not> string_size k + string_size [] > capacity_bytes c \<longrightarrow>
            (\<exists>c1. put c k [] = Some c1 \<and> cache_map c1 k \<noteq> None
               \<and> cached_value c1 k = Some [] \<and> get c1 k = Some ([], c1)))
       \<and> (\<forall>raw tot request.
            recv_headers (client_recv env) [] 0 = (raw, tot, True)
            \<and> cached_value c raw = Some []
            \<and> parse env raw = Some request \<and> method' request = ''GET''
            \<and> connect_ok (remote env) \<and> request_sent (remote env) \<longrightarrow>
            (\<exists>r. thread_fn c env = Some r \<and> remote_request r = Some (build_request request)))
       \<and> (connect_ok server \<and> request_sent server
            \<and> (responses server = [] \<or> (\<exists>rest. responses server = Bytes [] # rest))
            \<and> \<not> string_size u + string_size [] > capacity_bytes c \<longrightarrow>
            (\<exists>r. handle_request c server send_ok request u = Some r \<and> ret r = 0
               \<and> cached_value (cache r) u = Some []))"
proof (intro conjI allI impI)
  assume "cache_map c k = None"
  then show "get c k = Some ([], c)" by (simp add: get_def)
next
  assume fits: "\<not> string_size k + string_size [] > capacity_bytes c"
  from put_stores [OF inv fits] obtain c1 it where
    c1: "put c k [] = Some c1" "cache_inv c1"
        "lru_list c1 = (it, \<lparr>url = k, data = []\<rparr>) # tl (lru_list c1)"
        "cache_map c1 k = Some it" by auto
  from c1(2) have "cache_wf c1" by (simp add: cache_inv_def)
  from get_front [OF this c1(3)] have g: "get c1 k = Some ([], c1)" by simp
  from put_cached_value [OF inv fits] c1(1) have "cached_value c1 k = Some []" by simp
  with c1 g show "\<exists>c1. put c k [] = Some c1 \<and> cache_map c1 k \<noteq> None
               \<and> cached_value c1 k = Some [] \<and> get c1 k = Some ([], c1)" by simp
next
  fix raw tot request
  assume a: "recv_headers (client_recv env) [] 0 = (raw, tot, True)
            \<and> cached_value c raw = Some []
            \<and> parse env raw = Some request \<and> method' request = ''GET''
            \<and> connect_ok (remote env) \<and> request_sent (remote env)"
  then have "thread_fn c env = lookup_and_dispatch c env raw" by (simp add: thread_fn_def)
  with dispatch_miss [OF inv, of raw env request] a
  show "\<exists>r. thread_fn c env = Some r \<and> remote_request r = Some (build_request request)"
    by auto
next
  assume a: "connect_ok server \<and> request_sent server
            \<and> (responses server = [] \<or> (\<exists>rest. responses server = Bytes [] # rest))
            \<and> \<not> string_size u + string_size [] > capacity_bytes c"
  then have rl: "relay_loop (responses server) send_ok 0 [] [] = ([], [])" by auto
  from a have fits: "\<not> string_size u + string_size [] > capacity_bytes c" by simp
  from put_cached_value [OF inv fits] obtain c' where
    c': "put c u [] = Some c'" "cached_value c' u = Some []" by blast
  with a rl show "\<exists>r. handle_request c server send_ok request u = Some r \<and> ret r = 0
               \<and> cached_value (cache r) u = Some []"
    by (simp add: handle_request_def Let_def)
qed

theorem empty_value_is_a_miss_witness:
  "cache_inv (LRUCache_new 100)
   \<and> cache_map (LRUCache_new 100) ''k'' = None
   \<and> get (LRUCache_new 100) ''k'' = Some ([], LRUCache_new 100)
   \<and> \<not> string_size ''k'' + string_size [] > capacity_bytes (LRUCache_new 100)
   \<and> (\<exists>c1. put (LRUCache_new 100) ''k'' [] = Some c1 \<and> cache_map c1 ''k'' \<noteq> None
        \<and> cached_value c1 ''k'' = Some [] \<and> get c1 ''k'' = Some ([], c1))
   \<and> cache_inv example_cache_empty_value
   \<and> recv_headers (client_recv (example_env [Bytes example_raw])) [] 0 = (example_raw, 78, True)
   \<and> cached_value example_cache_empty_value example_raw = Some []
   \<and> parse (example_env [Bytes example_raw]) example_raw = Some example_request
   \<and> method' example_request = ''GET''
   \<and> connect_ok (remote (example_env [Bytes example_raw]))
   \<and> request_sent (remote (example_env [Bytes example_raw]))
   \<and> (\<exists>r. thread_fn example_cache_empty_value (example_env [Bytes example_raw]) = Some r
        \<and> remote_request r = Some (build_request example_request))
   \<and> connect_ok example_server_eof \<and> request_sent example_server_eof
   \<and> responses example_server_eof = []
   \<and> (\<exists>r. handle_request (LRUCache_new 100) example_server_eof always_ok example_request ''k''
              = Some r
        \<and> ret r = 0 \<and> cached_value (cache r) ''k'' = Some [])"
proof -
  let ?env = "example_env [Bytes example_raw]"
  have a: "cache_map (LRUCache_new 100) ''k'' = None" by (simp add: LRUCache_new_def)
  have f: "\<not> string_size ''k'' + string_size [] > capacity_bytes (LRUCache_new 100)"
    by (simp add: LRUCache_new_def string_size_def)
  have ev: "cached_value example_cache_empty_value example_raw = Some []"
    by (simp add: cached_value_def example_cache_empty_value_def deref_def)
  have p: "parse ?env example_raw = Some example_request"
    by (simp add: example_env_def example_parse_def)
  have g: "method' example_request = ''GET''" by (rule example_request_method)
  have c: "connect_ok (remote ?env)" "request_sent (remote ?env)"
    by (simp_all add: example_env_def)
  have s: "connect_ok example_server_eof" "request_sent example_server_eof"
    "responses example_server_eof = []" by (simp_all add: example_server_eof_def)
  note fresh = empty_value_is_a_miss [OF new_inv [of 100], where k = "''k''" and env = ?env
      and server = example_server_eof and u = "''k''" and send_ok = always_ok
      and request = example_request]
  note stored = empty_value_is_a_miss [OF example_cache_empty_value_inv, where env = ?env]
  from fresh a have 1: "get (LRUCache_new 100) ''k'' = Some ([], LRUCache_new 100)" by blast
  from fresh f have 2: "\<exists>c1. put (LRUCache_new 100) ''k'' [] = Some c1 \<and> cache_map c1 ''k'' \<noteq> None
        \<and> cached_value c1 ''k'' = Some [] \<and> get c1 ''k'' = Some ([], c1)" by blast
  from stored example_recv ev p g c
  have 3: "\<exists>r. thread_fn example_cache_empty_value ?env = Some r
        \<and> remote_request r = Some (build_request example_request)" by blast
  from fresh s f
  have 4: "\<exists>r. handle_request (LRUCache_new 100) example_server_eof always_ok example_request ''k''
              = Some r
        \<and> ret r = 0 \<and> cached_value (cache r) ''k'' = Some []" by blast
  from new_inv [of 100] a 1 f 2 example_cache_empty_value_inv example_recv ev p g c 3 s 4
  show ?thesis by blast
qed

end
